theory Spec2Isabelle
  imports Main "HOL-Library.Word" "HOL-Library.List_Lexorder" "HOL-Library.Char_ord"
begin

unbundle bit_operations_syntax

section \<open>Bytes, errors and Go primitives\<close>

text \<open>
  Go strings and byte slices are sequences of 8-bit bytes; both are modelled as
  lists of \<^typ>\<open>char\<close>, so that the conversion \<^verbatim>\<open>[]byte(s)\<close> is the identity.
\<close>

type_synonym byte = char

abbreviation CR :: byte where "CR \<equiv> CHR 0x0D"
abbreviation LF :: byte where "LF \<equiv> CHR 0x0A"
abbreviation NUL :: byte where "NUL \<equiv> CHR 0x00"

text \<open>
  Go error values: an opaque error of the operating system, \<^verbatim>\<open>io.EOF\<close>, an error
  wrapped with a message by \<^verbatim>\<open>errors.Wrap\<close>, and one made by \<^verbatim>\<open>errors.Errorf\<close>.
  The value \<^verbatim>\<open>nil\<close> is \<open>None\<close> of the option type over errors.
\<close>

datatype error = OSError string | EOF | Wrapped error string | Errorf string

text \<open>\<^verbatim>\<open>errors.Wrap\<close> returns nil for a nil error.\<close>

fun Wrap :: "error option \<Rightarrow> string \<Rightarrow> error option" where
  "Wrap None msg = None"
| "Wrap (Some e) msg = Some (Wrapped e msg)"

text \<open>Run-time panics of indexing and slicing.\<close>

datatype panic = SliceBoundsOutOfRange | IndexOutOfRange

text \<open>
  The slice expression \<^verbatim>\<open>buf[lo:hi]\<close> on a buffer whose capacity is its length,
  once its bounds are known to be valid.
\<close>

definition slice :: "'a list \<Rightarrow> nat \<Rightarrow> nat \<Rightarrow> 'a list" where
  "slice buf lo hi = take (hi - lo) (drop lo buf)"

text \<open>
  The builtin \<^verbatim>\<open>copy(buf[dlo:dhi], buf[slo:shi])\<close> within one buffer: both slice
  expressions are bounds-checked, then \<open>min\<close> of the two lengths is moved as by
  memmove (the source is read before the destination is written).
\<close>

definition go_copy :: "byte list \<Rightarrow> int \<Rightarrow> int \<Rightarrow> int \<Rightarrow> int \<Rightarrow> panic + byte list" where
  "go_copy buf dlo dhi slo shi =
     (if 0 \<le> dlo \<and> dlo \<le> dhi \<and> dhi \<le> int (length buf) \<and>
         0 \<le> slo \<and> slo \<le> shi \<and> shi \<le> int (length buf)
      then let n = min (nat (dhi - dlo)) (nat (shi - slo))
           in Inr (take (nat dlo) buf @ take n (drop (nat slo) buf) @ drop (nat dlo + n) buf)
      else Inl SliceBoundsOutOfRange)"

text \<open>\<^verbatim>\<open>bytes.Index(s, sep)\<close>: the index of the first instance of \<open>sep\<close> in \<open>s\<close>, or -1.\<close>

fun bytes_Index :: "byte list \<Rightarrow> byte list \<Rightarrow> int" where
  "bytes_Index [] sep = (if sep = [] then 0 else -1)"
| "bytes_Index (x # xs) sep =
     (if take (length sep) (x # xs) = sep then 0
      else let r = bytes_Index xs sep in if r = -1 then -1 else r + 1)"

section \<open>The line-ending reader\<close>

text \<open>
  \<^verbatim>\<open>type lineEndingReader struct { src io.Reader; prevReadEndedCR bool }\<close>.
  The source is a state of type \<^typ>\<open>'s\<close>; its \<^verbatim>\<open>Read\<close> method is a function that,
  from the state and the length of the slice it is handed, gives the bytes it
  stored at the front of that slice, its error and its next state.
\<close>

record 's lineEndingReader =
  src :: 's
  prevReadEndedCR :: bool

definition newLineEndingReader :: "'s \<Rightarrow> 's lineEndingReader" where
  "newLineEndingReader s = \<lparr>src = s, prevReadEndedCR = False\<rparr>"

text \<open>
  Lines 172-180: when a CR is withheld and the first byte read is not LF, the
  data is shifted right by one byte and the CR is put in front of it.
\<close>

definition insertCR :: "bool \<Rightarrow> byte list \<Rightarrow> int \<Rightarrow> panic + (byte list \<times> int)" where
  "insertCR prev buf nr =
     (if prev then
        (if length buf = 0 then Inl IndexOutOfRange
         else if buf ! 0 \<noteq> LF then
           (case go_copy buf 1 (nr + 1) 0 nr of
              Inl p \<Rightarrow> Inl p
            | Inr buf' \<Rightarrow> Inr (buf'[0 := CR], nr + 1))
         else Inr (buf, nr))
      else Inr (buf, nr))"

text \<open>
  Lines 185-195: the loop that removes the CR of each CR LF it finds. The new
  \<open>prevIndex\<close> is \<open>index\<close>, which \<^verbatim>\<open>bytes.Index\<close> counted from the old \<open>prevIndex\<close>.
\<close>

function removeCRLF :: "byte list \<Rightarrow> int \<Rightarrow> int \<Rightarrow> panic + (byte list \<times> int)" where
  "removeCRLF buf prevIndex nr =
     (if 0 \<le> prevIndex \<and> prevIndex \<le> nr \<and> nr \<le> int (length buf) then
        (let index = bytes_Index (slice buf (nat prevIndex) (nat nr)) [CR, LF] in
         if index = -1 then Inr (buf, nr)
         else if 0 \<le> prevIndex + index \<and> prevIndex + index \<le> nr - 1 then
           (case go_copy buf (prevIndex + index) (nr - 1) (prevIndex + index + 1) nr of
              Inl p \<Rightarrow> Inl p
            | Inr buf' \<Rightarrow> removeCRLF buf' index (nr - 1))
         else Inl SliceBoundsOutOfRange)
      else Inl SliceBoundsOutOfRange)"
  by pat_completeness auto
termination
  by (relation "measure (\<lambda>(buf, prevIndex, nr). nat nr)") auto

declare removeCRLF.simps [simp del]

text \<open>Lines 164-211, \<^verbatim>\<open>func (f *lineEndingReader) Read(buf []byte) (int, error)\<close>.\<close>

definition Read ::
  "('s \<Rightarrow> nat \<Rightarrow> byte list \<times> error option \<times> 's) \<Rightarrow> 's lineEndingReader \<Rightarrow> byte list
     \<Rightarrow> panic + (int \<times> error option \<times> byte list \<times> 's lineEndingReader)" where
  "Read srcRead f buf =
     (let buflen = int (length buf) - (if prevReadEndedCR f then 1 else 0) in
      if buflen < 0 then Inl SliceBoundsOutOfRange
      else
        (case srcRead (src f) (nat buflen) of (data, er, s') \<Rightarrow>
           let nr = int (length data);
               buf1 = data @ drop (length data) buf;
               f1 = f\<lparr>src := s'\<rparr>
           in
           if nr > 0 then
             (case insertCR (prevReadEndedCR f) buf1 nr of
                Inl p \<Rightarrow> Inl p
              | Inr (buf2, nr2) \<Rightarrow>
                  (case removeCRLF buf2 0 nr2 of
                     Inl p \<Rightarrow> Inl p
                   | Inr (buf3, nr3) \<Rightarrow>
                       if 0 \<le> nr3 - 1 \<and> nr3 - 1 < int (length buf3) then
                         (if buf3 ! nat (nr3 - 1) = CR
                          then Inr (nr3 - 1, er, buf3, f1\<lparr>prevReadEndedCR := True\<rparr>)
                          else Inr (nr3, er, buf3, f1\<lparr>prevReadEndedCR := False\<rparr>))
                       else Inl IndexOutOfRange))
           else if prevReadEndedCR f then
             (if length buf1 = 0 then Inl IndexOutOfRange
              else Inr (1, None, buf1[0 := CR], f1\<lparr>prevReadEndedCR := False\<rparr>))
           else Inr (nr, er, buf1, f1)))"


section \<open>Files and \<^verbatim>\<open>io.Copy\<close>\<close>

text \<open>
  What one call of \<^verbatim>\<open>Read\<close> on a file meets: a fragment of the contents, or a
  failure of that call alone (the calls after it go on from the same place).
\<close>

datatype readEvent = Chunk "byte list" | ReadError error

text \<open>
  An open \<^verbatim>\<open>*os.File\<close>, described by what its methods will return: the names
  \<^verbatim>\<open>Readdirnames(0)\<close> gives (or its error), the fragments and the failures that
  successive calls of \<^verbatim>\<open>Read\<close> meet, what every call returns once these are
  used up (\<open>None\<close> for the end of the file, or an error that stays), and the
  result of \<^verbatim>\<open>Close\<close>.
\<close>

record osFile =
  dirnames :: "error + string list"
  reads :: "readEvent list"
  readErr :: "error option"
  closeErr :: "error option"

text \<open>
  \<^verbatim>\<open>(*os.File).Read\<close> on a slice of length \<open>n\<close>: a zero-length read returns
  \<^verbatim>\<open>(0, nil)\<close>; a failure returns no byte and its error, once; a fragment is
  delivered, cut to \<open>n\<close> bytes when it is longer (the rest stays for the next
  call); with nothing left the result is \<^verbatim>\<open>(0, io.EOF)\<close> or the error that stays.
\<close>

definition fileRead :: "osFile \<Rightarrow> nat \<Rightarrow> byte list \<times> error option \<times> osFile" where
  "fileRead fh n =
     (if n = 0 then ([], None, fh)
      else case reads fh of
             [] \<Rightarrow> ([], Some (case readErr fh of None \<Rightarrow> EOF | Some e \<Rightarrow> e), fh)
           | ReadError e # rest \<Rightarrow> ([], Some e, fh\<lparr>reads := rest\<rparr>)
           | Chunk c # rest \<Rightarrow>
               if length c \<le> n then (c, None, fh\<lparr>reads := rest\<rparr>)
               else (take n c, None, fh\<lparr>reads := Chunk (drop n c) # rest\<rparr>))"

text \<open>
  The loop of \<^verbatim>\<open>io.Copy\<close> (\<^verbatim>\<open>io.copyBuffer\<close>) from a line-ending reader over a
  file into the hash, whose \<^verbatim>\<open>Write\<close> appends to the bytes hashed so far and never
  fails. A loop that never ends has the value \<open>None\<close>.
\<close>

partial_function (option) copyLoop ::
  "osFile lineEndingReader \<Rightarrow> byte list \<Rightarrow> int \<Rightarrow> byte list
     \<Rightarrow> (panic + (int \<times> error option \<times> byte list)) option" where
  [code]: "copyLoop f buf written h =
     (case Read fileRead f buf of
        Inl p \<Rightarrow> Some (Inl p)
      | Inr (nr, er, buf', f') \<Rightarrow>
          if nr > int (length buf') then Some (Inl SliceBoundsOutOfRange)
          else
            let written' = (if nr > 0 then written + nr else written);
                h' = (if nr > 0 then h @ take (nat nr) buf' else h)
            in (case er of
                  Some e \<Rightarrow> Some (Inr (written', (if e = EOF then None else Some e), h'))
                | None \<Rightarrow> copyLoop f' buf' written' h'))"

definition copyBufferSize :: nat where
  "copyBufferSize = 32 * 1024"

definition ioCopy ::
  "osFile lineEndingReader \<Rightarrow> byte list \<Rightarrow> (panic + (int \<times> error option \<times> byte list)) option" where
  "ioCopy f h = copyLoop f (replicate copyBufferSize NUL) 0 h"

text \<open>Line 215, \<^verbatim>\<open>writeBytesWithNull\<close>, on the bytes hashed so far.\<close>

definition writeBytesWithNull :: "byte list \<Rightarrow> byte list \<Rightarrow> byte list" where
  "writeBytesWithNull h data = h @ data @ [NUL]"

text \<open>\<^verbatim>\<open>strconv.FormatInt(i, 10)\<close>.\<close>

fun digits :: "nat \<Rightarrow> string" where
  "digits n =
     (if n < 10 then [''0123456789'' ! n]
      else digits (n div 10) @ [''0123456789'' ! (n mod 10)])"

declare digits.simps [simp del]

definition FormatInt :: "int \<Rightarrow> string" where
  "FormatInt i = (if i < 0 then CHR ''-'' # digits (nat (- i)) else digits (nat i))"

section \<open>The environment\<close>

text \<open>\<^verbatim>\<open>os.FileMode\<close> is a \<^verbatim>\<open>uint32\<close>; the mode bits are those of package \<^verbatim>\<open>os\<close>.\<close>

type_synonym FileMode = "32 word"

definition ModeDir :: FileMode where "ModeDir = push_bit 31 1"
definition ModeSymlink :: FileMode where "ModeSymlink = push_bit 27 1"
definition ModeDevice :: FileMode where "ModeDevice = push_bit 26 1"
definition ModeNamedPipe :: FileMode where "ModeNamedPipe = push_bit 25 1"
definition ModeSocket :: FileMode where "ModeSocket = push_bit 24 1"
definition ModeCharDevice :: FileMode where "ModeCharDevice = push_bit 21 1"

definition skipModes :: FileMode where
  "skipModes = ModeDevice OR ModeNamedPipe OR ModeSocket OR ModeCharDevice"

text \<open>
  What the package takes from the Go standard library and the operating system:
  the functions of \<^verbatim>\<open>path/filepath\<close>, the file-system calls of \<^verbatim>\<open>os\<close> (each gives
  an error or its result), and the digest function of \<^verbatim>\<open>crypto/sha256\<close> applied to
  all the bytes written to the hash.
\<close>

record env =
  Clean :: "string \<Rightarrow> string"
  Join :: "string \<Rightarrow> string \<Rightarrow> string"
  ToSlash :: "string \<Rightarrow> string"
  pathSeparator :: string
  Lstat :: "string \<Rightarrow> error + FileMode"
  Stat :: "string \<Rightarrow> error + FileMode"
  Readlink :: "string \<Rightarrow> error + string"
  Open :: "string \<Rightarrow> error + osFile"
  Sum256 :: "byte list \<Rightarrow> byte list"

text \<open>A function either panics, returns an error, or returns its result.\<close>

datatype failure = Panicked panic | Failed error

section \<open>\<^verbatim>\<open>DigestFromPathname\<close>\<close>

text \<open>The child names that both walks skip (lines 116 and 406).\<close>

definition skipNames :: "string list" where
  "skipNames = [''.'', ''..'', ''vendor'', ''.bzr'', ''.git'', ''.hg'', ''.svn'']"

text \<open>Lines 296-305.\<close>

definition sortedListOfDirectoryChildrenFromFileHandle :: "osFile \<Rightarrow> error + string list" where
  "sortedListOfDirectoryChildrenFromFileHandle fh =
     (case dirnames fh of
        Inl e \<Rightarrow> Inl (Wrapped e ''cannot Readdirnames'')
      | Inr childrenNames \<Rightarrow> Inr (if length childrenNames > 0 then sort childrenNames else childrenNames))"

text \<open>
  Lines 123-132 for a node that is neither a symbolic link nor a directory: the
  copy through the line-ending reader, the length written, and the close. The
  result is the bytes hashed so far and the error, if any.
\<close>

definition hashFile :: "osFile \<Rightarrow> byte list \<Rightarrow> (panic + (byte list \<times> error option)) option" where
  "hashFile fh h =
     (case ioCopy (newLineEndingReader fh) h of
        None \<Rightarrow> None
      | Some (Inl p) \<Rightarrow> Some (Inl p)
      | Some (Inr (written, cerr, h')) \<Rightarrow>
          let err = Wrap cerr ''cannot Copy'';
              h'' = writeBytesWithNull h' (FormatInt written);
              er = closeErr fh
          in Some (Inr (h'', if err = None then Wrap er ''cannot Close'' else err)))"

text \<open>
  Lines 108-121 and 130-135 for a directory: the pathnames to put on the queue,
  or the error.
\<close>

definition listChildren :: "env \<Rightarrow> string \<Rightarrow> osFile \<Rightarrow> error + string list" where
  "listChildren env pathname fh =
     (case sortedListOfDirectoryChildrenFromFileHandle fh of
        Inl e \<Rightarrow> Inl (Wrapped e ''cannot get list of directory children'')
      | Inr childrenNames \<Rightarrow>
          (case Wrap (closeErr fh) ''cannot Close'' of
             Some e \<Rightarrow> Inl e
           | None \<Rightarrow> Inr (map (Join env pathname) (filter (\<lambda>c. c \<notin> set skipNames) childrenNames))))"

text \<open>
  Lines 70-135, one turn of the loop on the pathname taken from the queue: the
  bytes hashed so far and the pathnames to append to the queue.
\<close>

definition digestNode ::
  "env \<Rightarrow> nat \<Rightarrow> string \<Rightarrow> byte list \<Rightarrow> (failure + (byte list \<times> string list)) option" where
  "digestNode env prefixLength pathname h =
     (case Lstat env pathname of
        Inl e \<Rightarrow> Some (Inl (Failed (Wrapped e ''cannot Lstat'')))
      | Inr mode \<Rightarrow>
          if mode AND skipModes \<noteq> 0 then Some (Inr (h, []))
          else if length pathname < prefixLength then Some (Inl (Panicked SliceBoundsOutOfRange))
          else
            let h1 = writeBytesWithNull h (ToSlash env (drop prefixLength pathname)) in
            if mode AND ModeSymlink \<noteq> 0 then
              (case Readlink env pathname of
                 Inl e \<Rightarrow> Some (Inl (Failed (Wrapped e ''cannot Readlink'')))
               | Inr referent \<Rightarrow> Some (Inr (writeBytesWithNull h1 (ToSlash env referent), [])))
            else
              (case Open env pathname of
                 Inl e \<Rightarrow> Some (Inl (Failed (Wrapped e ''cannot Open'')))
               | Inr fh \<Rightarrow>
                   if mode AND ModeDir \<noteq> 0 then
                     (case listChildren env pathname fh of
                        Inl e \<Rightarrow> Some (Inl (Failed e))
                      | Inr children \<Rightarrow> Some (Inr (h1, children)))
                   else
                     (case hashFile fh h1 of
                        None \<Rightarrow> None
                      | Some (Inl p) \<Rightarrow> Some (Inl (Panicked p))
                      | Some (Inr (h2, Some e)) \<Rightarrow> Some (Inl (Failed e))
                      | Some (Inr (h2, None)) \<Rightarrow> Some (Inr (h2, [])))))"

text \<open>
  Lines 67-138, the loop over the queue. The fuel bounds the number of turns;
  \<open>None\<close> is a walk that has not ended within it.
\<close>

fun digestLoop ::
  "nat \<Rightarrow> env \<Rightarrow> nat \<Rightarrow> string list \<Rightarrow> byte list \<Rightarrow> (failure + byte list) option" where
  "digestLoop fuel env prefixLength [] h = Some (Inr h)"
| "digestLoop 0 env prefixLength (pathname # pathnameQueue) h = None"
| "digestLoop (Suc fuel) env prefixLength (pathname # pathnameQueue) h =
     (case digestNode env prefixLength pathname h of
        None \<Rightarrow> None
      | Some (Inl e) \<Rightarrow> Some (Inl e)
      | Some (Inr (h', children)) \<Rightarrow> digestLoop fuel env prefixLength (pathnameQueue @ children) h')"

text \<open>The bytes written to the hash by the whole walk (lines 59-136).\<close>

definition digestBytes :: "nat \<Rightarrow> env \<Rightarrow> string \<Rightarrow> string \<Rightarrow> (failure + byte list) option" where
  "digestBytes fuel env prefix pathname =
     (let prefix' = Clean env prefix @ pathSeparator env;
          prefixLength = length prefix'
      in digestLoop fuel env prefixLength [Join env prefix' pathname] [])"

definition DigestFromPathname :: "nat \<Rightarrow> env \<Rightarrow> string \<Rightarrow> string \<Rightarrow> (failure + byte list) option" where
  "DigestFromPathname fuel env prefix pathname =
     (case digestBytes fuel env prefix pathname of
        None \<Rightarrow> None
      | Some (Inl e) \<Rightarrow> Some (Inl e)
      | Some (Inr h) \<Rightarrow> Some (Inr (Sum256 env h)))"


section \<open>\<^verbatim>\<open>VerifyDepTree\<close>\<close>

datatype VendorStatus = NotInLock | NotInTree | NoMismatch | EmptyDigestInLock | DigestMismatchInLock

record fsnode =
  pathname :: string
  isRequiredAncestor :: bool
  myIndex :: int
  parentIndex :: int

text \<open>
  The slice \<^verbatim>\<open>nodes\<close> holds pointers to the nodes and is the only place they are
  reached from for writing, so the list of records below is the store of the
  nodes, and a pointer to a node (an element of \<^verbatim>\<open>queue\<close>) is its position in
  that list.
\<close>

type_synonym statusMap = "string \<rightharpoonup> VendorStatus"

text \<open>Lines 276-291.\<close>

definition sortedListOfDirectoryChildrenFromPathname :: "env \<Rightarrow> string \<Rightarrow> error + string list" where
  "sortedListOfDirectoryChildrenFromPathname env path =
     (case Open env path of
        Inl e \<Rightarrow> Inl (Wrapped e ''cannot Open'')
      | Inr fh \<Rightarrow>
          (case sortedListOfDirectoryChildrenFromFileHandle fh of
             Inl e \<Rightarrow> Inl e
           | Inr childrenNames \<Rightarrow>
               (case Wrap (closeErr fh) ''cannot Close'' of
                  Some e \<Rightarrow> Inl e
                | None \<Rightarrow> Inr childrenNames)))"

text \<open>
  Lines 391-395: the node at \<open>pni\<close> and its ancestors, along the parent indices,
  are marked required. The fuel bounds the number of turns.
\<close>

fun markRequired :: "nat \<Rightarrow> fsnode list \<Rightarrow> int \<Rightarrow> (failure + fsnode list) option" where
  "markRequired 0 nodes pni = (if pni = -1 then Some (Inr nodes) else None)"
| "markRequired (Suc fuel) nodes pni =
     (if pni = -1 then Some (Inr nodes)
      else if 0 \<le> pni \<and> pni < int (length nodes) then
        markRequired fuel
          (nodes[nat pni := (nodes ! nat pni)\<lparr>isRequiredAncestor := True\<rparr>])
          (parentIndex (nodes ! nat pni))
      else Some (Inl (Panicked IndexOutOfRange)))"

text \<open>Lines 376-388: the status of a directory that the table lists.\<close>

definition lockStatus ::
  "nat \<Rightarrow> env \<Rightarrow> string \<Rightarrow> string \<Rightarrow> byte list \<Rightarrow> (failure + VendorStatus) option" where
  "lockStatus fuel env vendorPathname short expectedSum =
     (if length expectedSum > 0 then
        (case DigestFromPathname fuel env vendorPathname short of
           None \<Rightarrow> None
         | Some (Inl (Panicked p)) \<Rightarrow> Some (Inl (Panicked p))
         | Some (Inl (Failed e)) \<Rightarrow> Some (Inl (Failed (Wrapped e ''cannot compute dependency hash'')))
         | Some (Inr projectSum) \<Rightarrow>
             Some (Inr (if projectSum \<noteq> expectedSum then DigestMismatchInLock else NoMismatch)))
      else Some (Inr EmptyDigestInLock))"

text \<open>Lines 404-428: the children of the current node, in the order of the listing.\<close>

fun addChildren ::
  "env \<Rightarrow> string \<Rightarrow> int \<Rightarrow> string list \<Rightarrow> fsnode list \<Rightarrow> nat list
     \<Rightarrow> failure + (fsnode list \<times> nat list)" where
  "addChildren env curPath curIndex [] nodes queue = Inr (nodes, queue)"
| "addChildren env curPath curIndex (childName # rest) nodes queue =
     (if childName \<in> set skipNames then addChildren env curPath curIndex rest nodes queue
      else
        let childPathname = Join env curPath childName;
            otherNode = \<lparr>pathname = childPathname, isRequiredAncestor = False,
                         myIndex = int (length nodes), parentIndex = curIndex\<rparr>
        in (case Stat env childPathname of
              Inl e \<Rightarrow> Inl (Failed (Wrapped e ''cannot Stat''))
            | Inr mode \<Rightarrow>
                if mode AND skipModes \<noteq> 0 \<or> mode AND ModeSymlink \<noteq> 0
                then addChildren env curPath curIndex rest nodes queue
                else addChildren env curPath curIndex rest (nodes @ [otherNode])
                       (if mode AND ModeDir \<noteq> 0 then queue @ [length nodes] else queue)))"

text \<open>
  Lines 370-432, one turn of the loop for the node \<open>cur\<close> popped from the queue;
  \<open>queue\<close> is the rest of the queue.
\<close>

definition verifyNode ::
  "nat \<Rightarrow> env \<Rightarrow> string \<Rightarrow> nat \<Rightarrow> (string \<rightharpoonup> byte list) \<Rightarrow> fsnode list \<Rightarrow> nat list \<Rightarrow> statusMap
     \<Rightarrow> nat \<Rightarrow> (failure + (fsnode list \<times> nat list \<times> statusMap)) option" where
  "verifyNode fuel env vendorPathname prefixLength wantSums nodes queue status cur =
     (let currentNode = nodes ! cur in
      if length (pathname currentNode) < prefixLength then Some (Inl (Panicked SliceBoundsOutOfRange))
      else
        let short = drop prefixLength (pathname currentNode) in
        (case wantSums short of
           Some expectedSum \<Rightarrow>
             (case lockStatus fuel env vendorPathname short expectedSum of
                None \<Rightarrow> None
              | Some (Inl e) \<Rightarrow> Some (Inl e)
              | Some (Inr ls) \<Rightarrow>
                  (case markRequired fuel nodes (myIndex currentNode) of
                     None \<Rightarrow> None
                   | Some (Inl e) \<Rightarrow> Some (Inl e)
                   | Some (Inr nodes') \<Rightarrow> Some (Inr (nodes', queue, status(short \<mapsto> ls)))))
         | None \<Rightarrow>
             (case sortedListOfDirectoryChildrenFromPathname env (pathname currentNode) of
                Inl e \<Rightarrow> Some (Inl (Failed (Wrapped e ''cannot get sorted list of directory children'')))
              | Inr childrenNames \<Rightarrow>
                  (case addChildren env (pathname currentNode) (myIndex currentNode)
                          childrenNames nodes queue of
                     Inl e \<Rightarrow> Some (Inl e)
                   | Inr (nodes', queue') \<Rightarrow> Some (Inr (nodes', queue', status))))))"

text \<open>Lines 369-433: the node popped is the last of the queue.\<close>

fun verifyLoop ::
  "nat \<Rightarrow> env \<Rightarrow> string \<Rightarrow> nat \<Rightarrow> (string \<rightharpoonup> byte list) \<Rightarrow> fsnode list \<Rightarrow> nat list \<Rightarrow> statusMap
     \<Rightarrow> (failure + (fsnode list \<times> statusMap)) option" where
  "verifyLoop fuel env vendorPathname prefixLength wantSums nodes [] status = Some (Inr (nodes, status))"
| "verifyLoop 0 env vendorPathname prefixLength wantSums nodes (q # qs) status = None"
| "verifyLoop (Suc fuel) env vendorPathname prefixLength wantSums nodes (q # qs) status =
     (case verifyNode fuel env vendorPathname prefixLength wantSums nodes (butlast (q # qs)) status
             (last (q # qs)) of
        None \<Rightarrow> None
      | Some (Inl e) \<Rightarrow> Some (Inl e)
      | Some (Inr (nodes', queue', status')) \<Rightarrow>
          verifyLoop fuel env vendorPathname prefixLength wantSums nodes' queue' status')"

text \<open>Lines 438-443: the pass over the nodes from index \<open>i\<close> down to 1.\<close>

fun reportNotInLock :: "nat \<Rightarrow> fsnode list \<Rightarrow> nat \<Rightarrow> statusMap \<Rightarrow> failure + statusMap" where
  "reportNotInLock 0 nodes prefixLength status = Inr status"
| "reportNotInLock (Suc i) nodes prefixLength status =
     (let currentNode = nodes ! Suc i in
      if \<not> isRequiredAncestor currentNode then
        (if 0 \<le> parentIndex currentNode \<and> parentIndex currentNode < int (length nodes) then
           (if isRequiredAncestor (nodes ! nat (parentIndex currentNode)) then
              (if length (pathname currentNode) < prefixLength
               then Inl (Panicked SliceBoundsOutOfRange)
               else reportNotInLock i nodes prefixLength
                      (status(drop prefixLength (pathname currentNode) \<mapsto> NotInLock)))
            else reportNotInLock i nodes prefixLength status)
         else Inl (Panicked IndexOutOfRange))
      else reportNotInLock i nodes prefixLength status)"

text \<open>Lines 364-367: every key of the table starts as \<open>NotInTree\<close>.\<close>

definition initialStatus :: "(string \<rightharpoonup> byte list) \<Rightarrow> statusMap" where
  "initialStatus wantSums = (\<lambda>k. case wantSums k of None \<Rightarrow> None | Some d \<Rightarrow> Some NotInTree)"

text \<open>
  Lines 312-433: the checks of the vendor root and the walk, giving the nodes
  and the statuses before the last pass, with the length of the prefix.
\<close>

definition verifyWalk ::
  "nat \<Rightarrow> env \<Rightarrow> string \<Rightarrow> (string \<rightharpoonup> byte list)
     \<Rightarrow> (failure + (fsnode list \<times> statusMap \<times> nat)) option" where
  "verifyWalk fuel env vendorPathname wantSums =
     (case Stat env vendorPathname of
        Inl e \<Rightarrow> Some (Inl (Failed (Wrapped e ''cannot Stat'')))
      | Inr mode \<Rightarrow>
          if \<not> (mode AND ModeDir \<noteq> 0)
          then Some (Inl (Failed (Errorf (''cannot verify non directory: '' @ [CHR 0x22] @ vendorPathname @ [CHR 0x22]))))
          else
            let vendorPathname' = Clean env vendorPathname @ pathSeparator env;
                prefixLength = length vendorPathname';
                currentNode = \<lparr>pathname = vendorPathname', isRequiredAncestor = True,
                               myIndex = 0, parentIndex = -1\<rparr>
            in (case verifyLoop fuel env vendorPathname' prefixLength wantSums [currentNode] [0]
                       (initialStatus wantSums) of
                  None \<Rightarrow> None
                | Some (Inl e) \<Rightarrow> Some (Inl e)
                | Some (Inr (nodes, status)) \<Rightarrow> Some (Inr (nodes, status, prefixLength))))"

definition VerifyDepTree ::
  "nat \<Rightarrow> env \<Rightarrow> string \<Rightarrow> (string \<rightharpoonup> byte list) \<Rightarrow> (failure + statusMap) option" where
  "VerifyDepTree fuel env vendorPathname wantSums =
     (case verifyWalk fuel env vendorPathname wantSums of
        None \<Rightarrow> None
      | Some (Inl e) \<Rightarrow> Some (Inl e)
      | Some (Inr (nodes, status, prefixLength)) \<Rightarrow>
          Some (reportNotInLock (length nodes - 1) nodes prefixLength status))"

section \<open>The functions of \<^verbatim>\<open>path/filepath\<close> on Unix\<close>

text \<open>
  On Unix the separator is the slash and \<^verbatim>\<open>ToSlash\<close> changes nothing.
  \<^verbatim>\<open>filepath.Clean\<close> drops empty and \<open>.\<close> elements, lets a \<open>..\<close> element remove
  the element before it, drops a \<open>..\<close> that would climb above the root of a rooted
  path, and turns the empty result into \<open>.\<close>.
\<close>

fun splitSlash :: "string \<Rightarrow> string list" where
  "splitSlash [] = [[]]"
| "splitSlash (c # cs) =
     (if c = CHR ''/'' then [] # splitSlash cs
      else (case splitSlash cs of [] \<Rightarrow> [[c]] | e # es \<Rightarrow> (c # e) # es))"

text \<open>The elements kept so far are held in reverse.\<close>

fun cleanElems :: "bool \<Rightarrow> string list \<Rightarrow> string list \<Rightarrow> string list" where
  "cleanElems rooted out [] = rev out"
| "cleanElems rooted out (e # es) =
     (if e = [] \<or> e = ''.'' then cleanElems rooted out es
      else if e = ''..'' then
        (case out of
           [] \<Rightarrow> (if rooted then cleanElems rooted out es else cleanElems rooted [''..''] es)
         | t # ts \<Rightarrow>
             (if t = ''..'' then cleanElems rooted (''..'' # out) es
              else cleanElems rooted ts es))
      else cleanElems rooted (e # out) es)"

fun joinSlash :: "string list \<Rightarrow> string" where
  "joinSlash [] = []"
| "joinSlash [e] = e"
| "joinSlash (e # es) = e @ ''/'' @ joinSlash es"

definition unixClean :: "string \<Rightarrow> string" where
  "unixClean path =
     (if path = [] then ''.''
      else
        let rooted = (hd path = CHR ''/'');
            out = (if rooted then ''/'' else []) @ joinSlash (cleanElems rooted [] (splitSlash path))
        in if out = [] then ''.'' else out)"

text \<open>\<^verbatim>\<open>filepath.Join\<close> of two elements.\<close>

definition unixJoin :: "string \<Rightarrow> string \<Rightarrow> string" where
  "unixJoin a b =
     (if a \<noteq> [] then unixClean (a @ ''/'' @ b)
      else if b \<noteq> [] then unixClean b
      else [])"


section \<open>Concrete file systems\<close>

text \<open>
  A disk image lists the nodes of a Unix file system under their cleaned absolute
  pathnames: a directory with the names \<^verbatim>\<open>Readdirnames\<close> gives, a regular file with
  the fragments its reads deliver, a symbolic link with its referent, or a node
  of another kind with its mode bits.
\<close>

datatype entry = Directory "string list" | Regular "byte list list" | Symlink string | Special FileMode

type_synonym disk = "(string \<times> entry) list"

definition noEntry :: error where
  "noEntry = OSError ''no such file or directory''"

definition diskLookup :: "disk \<Rightarrow> string \<Rightarrow> entry option" where
  "diskLookup d path = map_of d (unixClean path)"

text \<open>
  \<^verbatim>\<open>os.Stat\<close> and \<^verbatim>\<open>os.Open\<close> follow a symbolic link at the end of the path (at most
  \<open>n\<close> times); a relative referent is taken from the directory of the link.
  Links in the directory part of a path are not followed.
\<close>

definition dirOf :: "string \<Rightarrow> string" where
  "dirOf path = rev (dropWhile (\<lambda>c. c \<noteq> CHR ''/'') (rev (unixClean path)))"

fun follow :: "nat \<Rightarrow> disk \<Rightarrow> string \<Rightarrow> error + entry" where
  "follow 0 d path = Inl (OSError ''too many levels of symbolic links'')"
| "follow (Suc n) d path =
     (case diskLookup d path of
        None \<Rightarrow> Inl noEntry
      | Some (Symlink referent) \<Rightarrow>
          follow n d (if take 1 referent = ''/'' then referent else unixJoin (dirOf path) referent)
      | Some e \<Rightarrow> Inr e)"

fun entryMode :: "entry \<Rightarrow> FileMode" where
  "entryMode (Directory names) = ModeDir"
| "entryMode (Regular frags) = 0"
| "entryMode (Symlink referent) = ModeSymlink"
| "entryMode (Special mode) = mode"

fun entryFile :: "entry \<Rightarrow> error + osFile" where
  "entryFile (Directory names) =
     Inr \<lparr>dirnames = Inr names, reads = [], readErr = Some (OSError ''is a directory''), closeErr = None\<rparr>"
| "entryFile (Regular frags) =
     Inr \<lparr>dirnames = Inl (OSError ''not a directory''), reads = map Chunk frags, readErr = None, closeErr = None\<rparr>"
| "entryFile e = Inl (OSError ''no such device or address'')"

definition diskLstat :: "disk \<Rightarrow> string \<Rightarrow> error + FileMode" where
  "diskLstat d path = (case diskLookup d path of None \<Rightarrow> Inl noEntry | Some e \<Rightarrow> Inr (entryMode e))"

definition diskStat :: "disk \<Rightarrow> string \<Rightarrow> error + FileMode" where
  "diskStat d path = (case follow 40 d path of Inl e \<Rightarrow> Inl e | Inr e \<Rightarrow> Inr (entryMode e))"

definition diskReadlink :: "disk \<Rightarrow> string \<Rightarrow> error + string" where
  "diskReadlink d path =
     (case diskLookup d path of
        Some (Symlink referent) \<Rightarrow> Inr referent
      | Some e \<Rightarrow> Inl (OSError ''invalid argument'')
      | None \<Rightarrow> Inl noEntry)"

definition diskOpen :: "disk \<Rightarrow> string \<Rightarrow> error + osFile" where
  "diskOpen d path = (case follow 40 d path of Inl e \<Rightarrow> Inl e | Inr e \<Rightarrow> entryFile e)"

text \<open>The environment of a disk image on Unix, with a given digest function.\<close>

definition unixEnv :: "disk \<Rightarrow> (byte list \<Rightarrow> byte list) \<Rightarrow> env" where
  "unixEnv d digest =
     \<lparr>Clean = unixClean, Join = unixJoin, ToSlash = (\<lambda>s. s), pathSeparator = ''/'',
      Lstat = diskLstat d, Stat = diskStat d, Readlink = diskReadlink d, Open = diskOpen d,
      Sum256 = digest\<rparr>"


subsection \<open>The file systems of the examples\<close>

text \<open>
  A file that holds \<open>a CR\<close>, whose second read fails once and whose third read
  finds the end of the file.
\<close>

definition ioError :: error where "ioError = OSError ''input/output error''"

definition flakyFile :: osFile where
  "flakyFile = \<lparr>dirnames = Inl (OSError ''not a directory''),
                 reads = [Chunk [CHR ''a'', CR], ReadError ioError],
                 readErr = None, closeErr = None\<rparr>"

definition flakyEnv :: env where
  "flakyEnv = (unixEnv [(''/t'', Directory [''p'']), (''/t/p'', Regular [[CHR ''a'', CR]])] (\<lambda>s. s))
                \<lparr>Open := (\<lambda>path. Inr flakyFile)\<rparr>"

text \<open>A tree with the file \<open>ab\<close> holding \<open>c\<close>, and one with the file \<open>a\<close> holding \<open>bc\<close>.\<close>

definition treeAB :: disk where
  "treeAB = [(''/t'', Directory [''p'']), (''/t/p'', Directory [''ab'']), (''/t/p/ab'', Regular [''c''])]"

definition treeA :: disk where
  "treeA = [(''/t'', Directory [''p'']), (''/t/p'', Directory [''a'']), (''/t/p/a'', Regular [''bc''])]"

text \<open>The same tree \<open>p\<close> under the root directory and under \<open>/t\<close>.\<close>

definition twoCopies :: disk where
  "twoCopies = [(''/'', Directory [''p'', ''t'']),
                (''/p'', Directory [''f'']), (''/p/f'', Regular [''x'']),
                (''/t'', Directory [''p'']),
                (''/t/p'', Directory [''f'']), (''/t/p/f'', Regular [''x''])]"

text \<open>A vendor root that holds a regular file where the table expects a project.\<close>

definition fileAtKey :: disk where
  "fileAtKey = [(''/v'', Directory [''foo'']), (''/v/foo'', Regular [''x''])]"

text \<open>
  The node literals of lines 324 and 410.
\<close>

definition node :: "string \<Rightarrow> bool \<Rightarrow> int \<Rightarrow> int \<Rightarrow> fsnode" where
  "node p r i parent = \<lparr>pathname = p, isRequiredAncestor = r, myIndex = i, parentIndex = parent\<rparr>"

text \<open>The entry of a key in the result of \<^verbatim>\<open>VerifyDepTree\<close>: none when the map lacks the key.\<close>

definition statusOf :: "(failure + statusMap) option \<Rightarrow> string \<Rightarrow> (failure + VendorStatus option) option" where
  "statusOf result k = map_option (map_sum id (\<lambda>status. status k)) result"

text \<open>A vendor root with a device node and an empty directory.\<close>

definition deviceChild :: disk where
  "deviceChild = [(''/v'', Directory [''dev'', ''p'']), (''/v/dev'', Special ModeDevice),
                  (''/v/p'', Directory [])]"

text \<open>A vendor root with a symbolic link to an empty directory outside of it.\<close>

definition linkChild :: disk where
  "linkChild = [(''/v'', Directory [''lnk'']), (''/v/lnk'', Symlink ''/d''), (''/d'', Directory [])]"






section \<open>The nodes of the walk\<close>

text \<open>
  The key of a node in the status map (\<^verbatim>\<open>pathname[prefixLength:]\<close>), the index of
  its parent, and its mark.
\<close>

definition relPath :: "nat \<Rightarrow> fsnode \<Rightarrow> string" where
  "relPath prefixLength n = drop prefixLength (pathname n)"

definition parentOf :: "fsnode list \<Rightarrow> nat \<Rightarrow> nat" where
  "parentOf nodes i = nat (parentIndex (nodes ! i))"

definition required :: "fsnode list \<Rightarrow> nat \<Rightarrow> bool" where
  "required nodes i = isRequiredAncestor (nodes ! i)"

text \<open>
  Every node stands at the index it records, the root has the parent \<open>-1\<close>, and
  the parent of every other node stands before it.
\<close>

definition wellIndexed :: "fsnode list \<Rightarrow> bool" where
  "wellIndexed nodes =
     (nodes \<noteq> [] \<and> parentIndex (nodes ! 0) = -1 \<and>
      (\<forall>i < length nodes. myIndex (nodes ! i) = int i) \<and>
      (\<forall>i < length nodes. 0 < i \<longrightarrow> 0 \<le> parentIndex (nodes ! i) \<and> parentIndex (nodes ! i) < int i))"

text \<open>The second list has the nodes of the first, with no mark taken away.\<close>

definition sameTree :: "fsnode list \<Rightarrow> fsnode list \<Rightarrow> bool" where
  "sameTree nodes nodes' =
     (length nodes' = length nodes \<and>
      (\<forall>i < length nodes. pathname (nodes' ! i) = pathname (nodes ! i) \<and>
         myIndex (nodes' ! i) = myIndex (nodes ! i) \<and>
         parentIndex (nodes' ! i) = parentIndex (nodes ! i) \<and>
         (required nodes i \<longrightarrow> required nodes' i)))"

text \<open>Required nodes have required parents, but for the nodes whose parent is \<open>pni\<close>.\<close>

definition closedExcept :: "fsnode list \<Rightarrow> int \<Rightarrow> bool" where
  "closedExcept nodes pni =
     (\<forall>i < length nodes. 0 < i \<and> required nodes i \<longrightarrow>
        required nodes (parentOf nodes i) \<or> parentIndex (nodes ! i) = pni)"

text \<open>
  The node is the root or \<^verbatim>\<open>os.Stat\<close> calls it a directory (line 423); and
  \<^verbatim>\<open>os.Stat\<close> gives it a mode with none of the bits tested at line 419.
\<close>

definition isDirNode :: "env \<Rightarrow> fsnode list \<Rightarrow> nat \<Rightarrow> bool" where
  "isDirNode env nodes i =
     (i = 0 \<or> (\<exists>m. Stat env (pathname (nodes ! i)) = Inr m \<and> m AND ModeDir \<noteq> 0))"

definition notSkipped :: "env \<Rightarrow> fsnode \<Rightarrow> bool" where
  "notSkipped env n =
     (\<exists>m. Stat env (pathname n) = Inr m \<and> m AND skipModes = 0 \<and> m AND ModeSymlink = 0)"

text \<open>
  A directory that has left the queue: when its key is in the table it is
  marked, and has the status \<open>EmptyDigestInLock\<close> when the digest expected is
  empty.
\<close>

definition settled :: "(string \<rightharpoonup> byte list) \<Rightarrow> nat \<Rightarrow> fsnode list \<Rightarrow> statusMap \<Rightarrow> nat \<Rightarrow> bool" where
  "settled wantSums prefixLength nodes status i =
     (case wantSums (relPath prefixLength (nodes ! i)) of
        None \<Rightarrow> True
      | Some d \<Rightarrow> required nodes i \<and>
          (d = [] \<longrightarrow> status (relPath prefixLength (nodes ! i)) = Some EmptyDigestInLock))"

text \<open>
  The invariant of the loop of lines 369-433: the nodes are well indexed, the
  root is marked and the marks are closed under parents; no node but the root
  has a mode that line 419 skips; the queue holds indices of nodes; every
  directory is on the queue or settled; the key of a parent is not in the
  table; no status is \<open>NotInLock\<close>; and a status that is not the initial one
  stands at the key of a marked node.
\<close>

definition walkInv ::
  "env \<Rightarrow> nat \<Rightarrow> (string \<rightharpoonup> byte list) \<Rightarrow> fsnode list \<Rightarrow> nat list \<Rightarrow> statusMap \<Rightarrow> bool" where
  "walkInv env prefixLength wantSums nodes queue status =
     (wellIndexed nodes \<and> required nodes 0 \<and> closedExcept nodes (-1) \<and>
      (\<forall>i < length nodes. 0 < i \<longrightarrow> notSkipped env (nodes ! i)) \<and>
      (\<forall>q \<in> set queue. q < length nodes) \<and>
      (\<forall>i < length nodes. isDirNode env nodes i \<longrightarrow>
         i \<in> set queue \<or> settled wantSums prefixLength nodes status i) \<and>
      (\<forall>i < length nodes. 0 < i \<longrightarrow>
         wantSums (relPath prefixLength (nodes ! parentOf nodes i)) = None) \<and>
      (\<forall>k. status k \<noteq> Some NotInLock) \<and>
      (\<forall>k. status k \<noteq> initialStatus wantSums k \<longrightarrow>
         (\<exists>i < length nodes. relPath prefixLength (nodes ! i) = k \<and> required nodes i)))"

text \<open>The nodes that the last pass reports (line 440).\<close>

definition reported :: "fsnode list \<Rightarrow> nat \<Rightarrow> bool" where
  "reported nodes j = (\<not> required nodes j \<and> required nodes (parentOf nodes j))"


section \<open>The contract of the reader\<close>

text \<open>
  The transform as the specification words it: every CR LF becomes a single LF,
  every other byte is kept.
\<close>

fun crlfToLf :: "byte list \<Rightarrow> byte list" where
  "crlfToLf (a # b # xs) = (if a = CR \<and> b = LF then LF # crlfToLf xs else a # crlfToLf (b # xs))"
| "crlfToLf xs = xs"

section \<open>What the reader does, on lists\<close>

text \<open>
  The loop of lines 185-195 acts on the first \<open>nr\<close> bytes of the buffer only. On
  that list it is the function below: the search starts at \<open>p\<close>, the CR found is
  removed, and the next search starts at the index the search returned.
\<close>

function stripCRLF :: "byte list \<Rightarrow> nat \<Rightarrow> byte list" where
  "stripCRLF xs p =
     (let i = bytes_Index (drop p xs) [CR, LF] in
      if i = -1 \<or> length xs \<le> p + nat i then xs
      else stripCRLF (take (p + nat i) xs @ drop (p + nat i + 1) xs) (nat i))"
  by pat_completeness auto
termination
  by (relation "measure (\<lambda>(xs, p). length xs)") auto

declare stripCRLF.simps [simp del]

text \<open>
  One call of \<^verbatim>\<open>Read\<close> in which the source delivered \<open>data\<close>: the bytes the call
  hands to its caller and the new value of \<^verbatim>\<open>prevReadEndedCR\<close>.
\<close>

definition readData :: "bool \<Rightarrow> byte list \<Rightarrow> byte list \<times> bool" where
  "readData prev data =
     (if data = [] then (if prev then ([CR], False) else ([], False))
      else
        let xs = stripCRLF (if prev \<and> hd data \<noteq> LF then CR # data else data) 0
        in if last xs = CR then (butlast xs, True) else (xs, False))"

text \<open>
  All the calls that \<^verbatim>\<open>io.Copy\<close> makes on a file with a buffer of length \<open>N\<close>:
  the bytes written to the hash and the error of the copy. (With a buffer of
  length 0 the loop of \<^verbatim>\<open>io.Copy\<close> does not end; \<^verbatim>\<open>io.Copy\<close> allocates 32 KiB.)
\<close>

fun eventWeight :: "readEvent \<Rightarrow> nat" where
  "eventWeight (Chunk c) = length c + 1"
| "eventWeight (ReadError e) = 1"

definition chunkWeight :: "osFile \<Rightarrow> nat" where
  "chunkWeight fh = (\<Sum>ev\<leftarrow>reads fh. eventWeight ev)"

section \<open>The reader never leaves its buffer\<close>

lemma bytes_Index_range:
  "bytes_Index s sep = -1 \<or> (0 \<le> bytes_Index s sep \<and> nat (bytes_Index s sep) + length sep \<le> length s)"
proof (induction s)
  case Nil
  then show ?case by simp
next
  case (Cons x xs)
  show ?case
  proof (cases "take (length sep) (x # xs) = sep")
    case True
    then have "length (take (length sep) (x # xs)) = length sep" by simp
    then have "length sep \<le> length (x # xs)" by (simp del: take_Suc_Cons)
    with True show ?thesis by simp
  next
    case False
    with Cons show ?thesis by (auto simp: Let_def)
  qed
qed

lemma go_copy_length:
  "go_copy buf dlo dhi slo shi = Inr buf' \<Longrightarrow> length buf' = length buf"
  by (auto simp: go_copy_def Let_def split: if_splits)

lemma removeCRLF_total:
  "0 \<le> p \<Longrightarrow> p \<le> nr \<Longrightarrow> 1 \<le> nr \<Longrightarrow> nr \<le> int (length buf) \<Longrightarrow>
     \<exists>buf' nr'. removeCRLF buf p nr = Inr (buf', nr') \<and> 1 \<le> nr' \<and> nr' \<le> nr \<and> length buf' = length buf"
proof (induction buf p nr rule: removeCRLF.induct)
  case (1 buf prevIndex nr)
  define index where "index = bytes_Index (slice buf (nat prevIndex) (nat nr)) [CR, LF]"
  have len: "length (slice buf (nat prevIndex) (nat nr)) = nat nr - nat prevIndex"
    using "1.prems" by (simp add: slice_def)
  show ?case
  proof (cases "index = -1")
    case True
    then show ?thesis
      using "1.prems" by (subst removeCRLF.simps) (simp add: index_def [symmetric])
  next
    case False
    with bytes_Index_range [of "slice buf (nat prevIndex) (nat nr)" "[CR, LF]"]
    have ir: "0 \<le> index" "nat index + 2 \<le> nat nr - nat prevIndex"
      by (simp_all add: index_def [symmetric] len)
    then have b: "0 \<le> prevIndex + index" "prevIndex + index \<le> nr - 2"
      using "1.prems" by linarith+
    obtain buf' where c: "go_copy buf (prevIndex + index) (nr - 1) (prevIndex + index + 1) nr = Inr buf'"
      using b "1.prems" by (auto simp: go_copy_def Let_def)
    have l': "length buf' = length buf" using c by (rule go_copy_length)
    have "\<exists>buf'' nr'. removeCRLF buf' index (nr - 1) = Inr (buf'', nr') \<and> 1 \<le> nr' \<and> nr' \<le> nr - 1 \<and> length buf'' = length buf'"
      apply (rule "1.IH" [OF _ index_def False _ c])
      using b ir "1.prems" l' by auto
    then show ?thesis
      using False b c "1.prems" l'
      by (subst removeCRLF.simps) (auto simp: index_def [symmetric])
  qed
qed


lemma insertCR_total:
  assumes "1 \<le> nr" "nr \<le> int (length buf)" "prev \<Longrightarrow> nr + 1 \<le> int (length buf)"
  shows "\<exists>buf2 nr2. insertCR prev buf nr = Inr (buf2, nr2) \<and> 1 \<le> nr2 \<and>
           nr2 \<le> int (length buf) \<and> length buf2 = length buf"
  using assms by (auto simp: insertCR_def go_copy_def Let_def)

lemma fileRead_length: "length (fst (fileRead fh n)) \<le> n"
  by (simp add: fileRead_def split: list.split readEvent.split)

text \<open>
  Claim C10. For a source that keeps the contract of \<^verbatim>\<open>io.Reader\<close> (it reports no
  more bytes than the slice it was handed holds), \<^verbatim>\<open>Read\<close> with a buffer of length
  at least 1 returns without a panic, and the count it returns lies within the
  buffer; the loop that removes the CRs leaves at least one byte whenever it
  starts with at least one, so that the index \<^verbatim>\<open>nr-1\<close> of the last check is in
  bounds; and with a CR withheld and an empty buffer, \<^verbatim>\<open>buf[:buflen]\<close> is
  \<^verbatim>\<open>buf[:-1]\<close> and the call panics.
\<close>

theorem Read_total:
  assumes contract: "\<And>s n. length (fst (srcRead s n)) \<le> n"
  shows "(1 \<le> length buf \<longrightarrow>
            (\<exists>nr er buf' f'. Read srcRead f buf = Inr (nr, er, buf', f') \<and>
               0 \<le> nr \<and> nr \<le> int (length buf) \<and> length buf' = length buf)) \<and>
         (\<forall>b nr. 1 \<le> nr \<and> nr \<le> int (length b) \<longrightarrow>
            (\<exists>b' nr'. removeCRLF b 0 nr = Inr (b', nr') \<and> 1 \<le> nr' \<and> nr' \<le> nr)) \<and>
         (prevReadEndedCR f \<longrightarrow> Read srcRead f [] = Inl SliceBoundsOutOfRange)"
proof (intro conjI impI allI)
  assume nonempty: "1 \<le> length buf"
  define prev where "prev = prevReadEndedCR f"
  define buflen where "buflen = int (length buf) - (if prev then 1 else 0)"
  obtain data er s' where sr: "srcRead (src f) (nat buflen) = (data, er, s')"
    by (cases "srcRead (src f) (nat buflen)")
  have bl: "0 \<le> buflen" using nonempty by (simp add: buflen_def)
  have dl: "int (length data) \<le> buflen"
    using contract [of "src f" "nat buflen"] sr bl by simp
  define buf1 where "buf1 = data @ drop (length data) buf"
  have l1: "length buf1 = length buf"
    using dl by (auto simp: buf1_def buflen_def split: if_splits)
  show "\<exists>nr er buf' f'. Read srcRead f buf = Inr (nr, er, buf', f') \<and>
               0 \<le> nr \<and> nr \<le> int (length buf) \<and> length buf' = length buf"
  proof (cases "0 < length data")
    case True
    have "\<exists>buf2 nr2. insertCR prev buf1 (int (length data)) = Inr (buf2, nr2) \<and> 1 \<le> nr2 \<and>
           nr2 \<le> int (length buf1) \<and> length buf2 = length buf1"
    proof (rule insertCR_total)
      show "1 \<le> int (length data)" using True by linarith
      show "int (length data) \<le> int (length buf1)" using dl l1 by (simp add: buflen_def split: if_splits)
      show "int (length data) + 1 \<le> int (length buf1)" if prev
        using dl l1 that by (simp add: buflen_def)
    qed
    then obtain buf2 nr2 where i: "insertCR prev buf1 (int (length data)) = Inr (buf2, nr2)"
      and n2: "1 \<le> nr2" "nr2 \<le> int (length buf2)" and l2: "length buf2 = length buf"
      using l1 by auto
    from removeCRLF_total [of 0 nr2 buf2] n2
    obtain buf3 nr3 where r: "removeCRLF buf2 0 nr2 = Inr (buf3, nr3)"
      and n3: "1 \<le> nr3" "nr3 \<le> nr2" and l3: "length buf3 = length buf2"
      by auto
    show ?thesis
      using True bl sr i r n2 n3 l2 l3
      by (simp add: Read_def Let_def prev_def [symmetric] buflen_def [symmetric] buf1_def [symmetric])
  next
    case False
    have "buf \<noteq> []" using nonempty by auto
    with False show ?thesis
      using bl sr l1 nonempty
      by (simp add: Read_def Let_def prev_def [symmetric] buflen_def [symmetric] buf1_def [symmetric])
  qed
next
  fix b :: "byte list" and nr :: int
  assume "1 \<le> nr \<and> nr \<le> int (length b)"
  with removeCRLF_total [of 0 nr b]
  show "\<exists>b' nr'. removeCRLF b 0 nr = Inr (b', nr') \<and> 1 \<le> nr' \<and> nr' \<le> nr"
    by auto
next
  assume "prevReadEndedCR f"
  then show "Read srcRead f [] = Inl SliceBoundsOutOfRange"
    by (simp add: Read_def)
qed

theorem Read_total_witness:
  "(1::nat) \<le> length [NUL, NUL] \<and>
   (\<exists>nr er buf' f'.
      Read fileRead \<lparr>src = \<lparr>dirnames = Inr [], reads = [Chunk [LF, CR]], readErr = None, closeErr = None\<rparr>,
                     prevReadEndedCR = True\<rparr> [NUL, NUL] = Inr (nr, er, buf', f') \<and>
      0 \<le> nr \<and> nr \<le> int (length [NUL, NUL]) \<and> length buf' = length [NUL, NUL]) \<and>
   Read fileRead \<lparr>src = \<lparr>dirnames = Inr [], reads = [Chunk [LF, CR]], readErr = None, closeErr = None\<rparr>,
                  prevReadEndedCR = True\<rparr> [] = Inl SliceBoundsOutOfRange"
  using Read_total [of fileRead "[NUL, NUL]"
      "\<lparr>src = \<lparr>dirnames = Inr [], reads = [Chunk [LF, CR]], readErr = None, closeErr = None\<rparr>,
        prevReadEndedCR = True\<rparr>"] fileRead_length
  by simp


section \<open>The reader on lists agrees with the reader on buffers\<close>

lemma go_copy_shift_left:
  assumes "a + 1 \<le> n" "n \<le> length buf"
  shows "\<exists>buf'. go_copy buf (int a) (int n - 1) (int a + 1) (int n) = Inr buf' \<and>
           length buf' = length buf \<and>
           take (n - 1) buf' = take a (take n buf) @ drop (a + 1) (take n buf)"
proof -
  define A where "A = take a buf @ take (n - 1 - a) (drop (a + 1) buf)"
  define B where "B = drop (a + (n - 1 - a)) buf"
  have m: "min (nat (int n - 1 - int a)) (nat (int n - (int a + 1))) = n - 1 - a"
    using assms by simp
  have lA: "length A = n - 1" using assms by (simp add: A_def)
  have lB: "length B = length buf - (n - 1)" using assms by (simp add: B_def)
  have g: "go_copy buf (int a) (int n - 1) (int a + 1) (int n) = Inr (A @ B)"
    using assms m by (simp add: go_copy_def Let_def A_def B_def nat_add_distrib)
  have t: "take (n - 1) (A @ B) = A" using lA by simp
  have "take a (take n buf) @ drop (a + 1) (take n buf) = A"
    using assms by (simp add: A_def drop_take min_def)
  moreover have "length (A @ B) = length buf" using lA lB assms by simp
  ultimately show ?thesis using g t by auto
qed

lemma removeCRLF_strip:
  "0 \<le> p \<Longrightarrow> p \<le> nr \<Longrightarrow> nr \<le> int (length buf) \<Longrightarrow>
     \<exists>buf'. removeCRLF buf p nr = Inr (buf', int (length (stripCRLF (take (nat nr) buf) (nat p)))) \<and>
       take (length (stripCRLF (take (nat nr) buf) (nat p))) buf' = stripCRLF (take (nat nr) buf) (nat p) \<and>
       length buf' = length buf"
proof (induction buf p nr rule: removeCRLF.induct)
  case (1 buf prevIndex nr)
  define index where "index = bytes_Index (slice buf (nat prevIndex) (nat nr)) [CR, LF]"
  define xs where "xs = take (nat nr) buf"
  have lxs: "length xs = nat nr" using "1.prems" by (simp add: xs_def)
  have sl: "slice buf (nat prevIndex) (nat nr) = drop (nat prevIndex) xs"
    by (simp add: slice_def xs_def drop_take)
  have idx: "bytes_Index (drop (nat prevIndex) xs) [CR, LF] = index"
    by (simp add: index_def sl)
  show ?case
  proof (cases "index = -1")
    case True
    have "stripCRLF xs (nat prevIndex) = xs"
      by (subst stripCRLF.simps) (simp add: idx True)
    then show ?thesis
      using "1.prems" True lxs
      by (subst removeCRLF.simps) (simp add: index_def [symmetric] xs_def [symmetric])
  next
    case False
    with bytes_Index_range [of "drop (nat prevIndex) xs" "[CR, LF]"]
    have ir: "0 \<le> index" "nat index + 2 \<le> nat nr - nat prevIndex"
      by (simp_all add: idx lxs)
    define a where "a = nat prevIndex + nat index"
    have a: "a + 1 \<le> nat nr" "nat nr \<le> length buf" "int a = prevIndex + index"
      using ir "1.prems" by (auto simp: a_def)
    from go_copy_shift_left [OF a(1,2)]
    obtain buf' where c: "go_copy buf (prevIndex + index) (nr - 1) (prevIndex + index + 1) nr = Inr buf'"
      and l': "length buf' = length buf"
      and t': "take (nat nr - 1) buf' = take a xs @ drop (a + 1) xs"
      using a(3) "1.prems" by (auto simp: xs_def)
    have nle: "\<not> length xs \<le> nat prevIndex + nat index" using ir lxs by linarith
    have st: "stripCRLF xs (nat prevIndex) = stripCRLF (take a xs @ drop (a + 1) xs) (nat index)"
      using False nle by (subst stripCRLF.simps) (simp add: idx a_def)
    have e: "take (nat (nr - 1)) buf' = take a xs @ drop (a + 1) xs"
    proof -
      have "nat (nr - 1) = nat nr - 1" using a(1) by linarith
      then show ?thesis using t' by simp
    qed
    have "\<exists>buf''. removeCRLF buf' index (nr - 1) =
            Inr (buf'', int (length (stripCRLF (take (nat (nr - 1)) buf') (nat index)))) \<and>
            take (length (stripCRLF (take (nat (nr - 1)) buf') (nat index))) buf'' =
              stripCRLF (take (nat (nr - 1)) buf') (nat index) \<and>
            length buf'' = length buf'"
      apply (rule "1.IH" [OF _ index_def False _ c])
      using a ir "1.prems" l' by auto
    then obtain buf'' where r: "removeCRLF buf' index (nr - 1) =
            Inr (buf'', int (length (stripCRLF xs (nat prevIndex))))"
         "take (length (stripCRLF xs (nat prevIndex))) buf'' = stripCRLF xs (nat prevIndex)"
         "length buf'' = length buf"
      unfolding e st [symmetric] l' by blast
    have "removeCRLF buf prevIndex nr = removeCRLF buf' index (nr - 1)"
      using False a c "1.prems" ir
      by (subst removeCRLF.simps) (auto simp: index_def [symmetric])
    then show ?thesis
      using r by (simp add: xs_def [symmetric])
  qed
qed

lemma stripCRLF_nonempty: "xs \<noteq> [] \<Longrightarrow> stripCRLF xs 0 \<noteq> []"
proof -
  assume ne: "xs \<noteq> []"
  then have "1 \<le> int (length xs)" by (cases xs) auto
  with removeCRLF_total [of 0 "int (length xs)" xs]
  obtain b' n' where r: "removeCRLF xs 0 (int (length xs)) = Inr (b', n')" and n: "1 \<le> n'"
    by auto
  from removeCRLF_strip [of 0 "int (length xs)" xs] r
  have "n' = int (length (stripCRLF xs 0))" by auto
  with n show ?thesis by auto
qed

lemma insertCR_data:
  assumes "data \<noteq> []" "take (length data) buf = data" "length data \<le> length buf"
    "prev \<Longrightarrow> length data + 1 \<le> length buf"
  shows "\<exists>buf2. insertCR prev buf (int (length data)) =
            Inr (buf2, int (length (if prev \<and> hd data \<noteq> LF then CR # data else data))) \<and>
          take (length (if prev \<and> hd data \<noteq> LF then CR # data else data)) buf2 =
            (if prev \<and> hd data \<noteq> LF then CR # data else data) \<and>
          length buf2 = length buf"
proof (cases "prev \<and> hd data \<noteq> LF")
  case False
  have "buf ! 0 = hd data"
    using assms(1,2) by (metis hd_conv_nth length_greater_0_conv nth_take)
  with False assms show ?thesis
    by (auto simp: insertCR_def)
next
  case True
  have h: "buf ! 0 = hd data"
    using assms(1,2) by (metis hd_conv_nth length_greater_0_conv nth_take)
  define n where "n = length data"
  have n: "0 < n" "n + 1 \<le> length buf" using assms True by (auto simp: n_def)
  have m: "min (nat (int n + 1 - 1)) (nat (int n - 0)) = n" by simp
  have g: "go_copy buf 1 (int n + 1) 0 (int n) = Inr (take 1 buf @ data @ drop (1 + n) buf)"
    using n assms(2) by (simp add: go_copy_def Let_def n_def)
  have u: "(take 1 buf @ data @ drop (1 + n) buf)[0 := CR] = CR # data @ drop (1 + n) buf"
    using n by (cases buf) auto
  have "take (Suc n) (CR # data @ drop (1 + n) buf) = CR # data"
    by (simp add: n_def)
  moreover have "length (CR # data @ drop (1 + n) buf) = length buf"
    using n by (simp add: n_def)
  moreover have "buf \<noteq> []" using n by auto
  ultimately show ?thesis
    using True h n g u by (simp add: insertCR_def n_def [symmetric])
qed

lemma Read_pure:
  assumes sr: "srcRead (src f) (nat (int (length buf) - (if prevReadEndedCR f then 1 else 0))) = (data, er, s')"
    and dl: "int (length data) \<le> int (length buf) - (if prevReadEndedCR f then 1 else 0)"
  shows "\<exists>buf'. Read srcRead f buf =
            Inr (int (length (fst (readData (prevReadEndedCR f) data))),
                 (if data = [] \<and> prevReadEndedCR f then None else er), buf',
                 \<lparr>src = s', prevReadEndedCR = snd (readData (prevReadEndedCR f) data)\<rparr>) \<and>
          take (length (fst (readData (prevReadEndedCR f) data))) buf' = fst (readData (prevReadEndedCR f) data) \<and>
          length buf' = length buf"
proof -
  define prev where "prev = prevReadEndedCR f"
  define buf1 where "buf1 = data @ drop (length data) buf"
  have bl: "\<not> int (length buf) - (if prev then 1 else 0) < 0"
    using dl by (auto simp: prev_def split: if_splits)
  have l1: "length buf1 = length buf"
    using dl by (auto simp: buf1_def split: if_splits)
  have t1: "take (length data) buf1 = data" by (simp add: buf1_def)
  show ?thesis
  proof (cases "data = []")
    case True
    then show ?thesis
      using sr bl dl
      by (cases buf) (auto simp: Read_def readData_def prev_def [symmetric] split: if_splits)
  next
    case False
    define xs0 where "xs0 = (if prev \<and> hd data \<noteq> LF then CR # data else data)"
    have "\<exists>buf2. insertCR prev buf1 (int (length data)) = Inr (buf2, int (length xs0)) \<and>
             take (length xs0) buf2 = xs0 \<and> length buf2 = length buf1"
      unfolding xs0_def
      by (rule insertCR_data [OF False t1]) (use dl l1 in \<open>auto simp: prev_def split: if_splits\<close>)
    then obtain buf2 where i: "insertCR prev buf1 (int (length data)) = Inr (buf2, int (length xs0))"
      and t2: "take (length xs0) buf2 = xs0" and l2: "length buf2 = length buf"
      using l1 by auto
    have x0: "xs0 \<noteq> []" using False by (simp add: xs0_def)
    have lx0: "length xs0 \<le> length buf2"
      using t2 by (metis length_take min.cobounded2 min.commute)
    define xs where "xs = stripCRLF xs0 0"
    from removeCRLF_strip [of 0 "int (length xs0)" buf2] lx0 t2
    obtain buf3 where r: "removeCRLF buf2 0 (int (length xs0)) = Inr (buf3, int (length xs))"
      and t3: "take (length xs) buf3 = xs" and l3: "length buf3 = length buf"
      using l2 by (auto simp: xs_def)
    have xne: "xs \<noteq> []" unfolding xs_def by (rule stripCRLF_nonempty [OF x0])
    have lx: "length xs \<le> length buf3"
      using t3 by (metis length_take min.cobounded2 min.commute)
    have lastx: "buf3 ! (length xs - 1) = last xs"
      using xne t3 by (metis diff_less last_conv_nth length_greater_0_conv nth_take zero_less_one)
    have idx: "nat (int (length xs) - 1) = length xs - 1" by simp
    have tb: "take (length xs - 1) buf3 = butlast xs"
    proof -
      have "butlast xs = take (length xs - 1) xs" by (simp add: butlast_conv_take)
      also have "\<dots> = take (length xs - 1) (take (length xs) buf3)" using t3 by simp
      also have "\<dots> = take (length xs - 1) buf3" by (simp add: min_def)
      finally show ?thesis by simp
    qed
    have rd: "readData prev data = (if last xs = CR then (butlast xs, True) else (xs, False))"
      using False by (simp add: readData_def xs_def xs0_def Let_def)
    have pos: "0 < length data" using False by simp
    have in_range: "0 \<le> int (length xs) - 1 \<and> int (length xs) - 1 < int (length buf3)"
      using xne lx by (cases xs) auto
    show ?thesis
    proof (cases "last xs = CR")
      case True
      have e1: "int (length xs - Suc 0) = int (length xs) - 1" using xne by (cases xs) auto
      show ?thesis
        using sr bl pos i r in_range lastx idx tb l3 rd True False
        by (simp add: Read_def Let_def prev_def [symmetric] buf1_def [symmetric] e1)
    next
      case F: False
      then show ?thesis
        using sr bl pos i r in_range lastx idx t3 l3 rd False
        by (simp add: Read_def Let_def prev_def [symmetric] buf1_def [symmetric])
    qed
  qed
qed

lemma readData_empty: "snd (readData prev []) = False"
  by (simp add: readData_def)

lemma fileRead_progress:
  assumes "fileRead fh n = (data, None, fh')" "0 < n"
  shows "chunkWeight fh' < chunkWeight fh"
  using assms
  by (auto simp: fileRead_def chunkWeight_def split: list.splits readEvent.splits if_splits)

lemma fileRead_zero: "fileRead fh 0 = ([], None, fh)"
  by (simp add: fileRead_def)

lemma fileRead_error_keeps:
  "fileRead fh n = (data, Some e, fh') \<Longrightarrow> data = [] \<and> chunkWeight fh' \<le> chunkWeight fh"
  by (auto simp: fileRead_def chunkWeight_def split: list.splits readEvent.splits if_splits)

lemma fileOutput_decreases:
  assumes "N \<noteq> 0" and fr: "fileRead fh (N - (if prev then 1 else 0)) = (data, er, fh')"
    and none: "(if data = [] \<and> prev then None else er) = None"
  shows "2 * chunkWeight fh' + (if snd (readData prev data) then 1 else 0)
           < 2 * chunkWeight fh + (if prev then 1 else 0)"
proof (cases "data = [] \<and> prev")
  case True
  have "chunkWeight fh' \<le> chunkWeight fh"
  proof (cases er)
    case None
    show ?thesis
    proof (cases "N - (if prev then 1 else 0) = 0")
      case True
      with fr show ?thesis by (simp add: fileRead_zero)
    next
      case False
      with fr None fileRead_progress [of fh _ data fh'] show ?thesis by fastforce
    qed
  next
    case (Some e)
    with fr fileRead_error_keeps show ?thesis by blast
  qed
  with True show ?thesis by (simp add: readData_empty)
next
  case False
  with none have er: "er = None" by (simp split: if_splits)
  have "N - (if prev then 1 else 0) \<noteq> 0"
  proof
    assume z: "N - (if prev then 1 else 0) = 0"
    with fr have "data = []" by (simp add: fileRead_zero)
    moreover from z assms(1) have prev by (simp split: if_splits)
    ultimately show False using False by simp
  qed
  with fr er fileRead_progress [of fh _ data fh'] have "chunkWeight fh' < chunkWeight fh"
    by fastforce
  then show ?thesis by (simp split: if_splits)
qed

function fileOutput :: "nat \<Rightarrow> bool \<Rightarrow> osFile \<Rightarrow> byte list \<times> error option" where
  "fileOutput N prev fh =
     (if N = 0 then ([], None)
      else
        (case fileRead fh (N - (if prev then 1 else 0)) of (data, er, fh') \<Rightarrow>
           (case (if data = [] \<and> prev then None else er) of
              Some e \<Rightarrow> (fst (readData prev data), if e = EOF then None else Some e)
            | None \<Rightarrow>
                (case fileOutput N (snd (readData prev data)) fh' of
                   (rest, e) \<Rightarrow> (fst (readData prev data) @ rest, e)))))"
  by pat_completeness auto
termination
  apply (relation "measure (\<lambda>(N, prev, fh). 2 * chunkWeight fh + (if prev then 1 else 0))")
  subgoal by simp
  subgoal for N prev fh x y xa ya
    using fileOutput_decreases [of N fh prev x xa ya] by auto
  done

declare fileOutput.simps [simp del]

lemma copyLoop_fileOutput:
  "length buf = N \<Longrightarrow> 0 < N \<Longrightarrow> prevReadEndedCR f = prev \<Longrightarrow> src f = fh \<Longrightarrow>
     copyLoop f buf w h =
       Some (Inr (w + int (length (fst (fileOutput N prev fh))), snd (fileOutput N prev fh),
                  h @ fst (fileOutput N prev fh)))"
proof (induction N prev fh arbitrary: f buf w h rule: fileOutput.induct)
  case (1 N prev fh)
  obtain data er fh' where fr: "fileRead fh (N - (if prev then 1 else 0)) = (data, er, fh')"
    by (cases "fileRead fh (N - (if prev then 1 else 0))")
  define out where "out = fst (readData prev data)"
  define prev' where "prev' = snd (readData prev data)"
  define er' where "er' = (if data = [] \<and> prev then None else er)"
  have n: "nat (int (length buf) - (if prevReadEndedCR f then 1 else 0)) = N - (if prev then 1 else 0)"
    using "1.prems" by auto
  have "length data \<le> N - (if prev then 1 else 0)"
    using fileRead_length [of fh "N - (if prev then 1 else 0)"] fr by simp
  then have dl: "int (length data) \<le> int (length buf) - (if prevReadEndedCR f then 1 else 0)"
    using "1.prems" by (cases prev) auto
  from Read_pure [of fileRead f buf data er fh'] fr n dl "1.prems"
  obtain buf' where rd: "Read fileRead f buf = Inr (int (length out), er', buf', \<lparr>src = fh', prevReadEndedCR = prev'\<rparr>)"
    and tk: "take (length out) buf' = out" and lb: "length buf' = N"
    by (auto simp: out_def prev'_def er'_def)
  have le: "length out \<le> length buf'"
    using tk by (metis length_take min.cobounded2 min.commute)
  have w': "(if out \<noteq> [] then w + int (length out) else w) = w + int (length out)"
    by simp
  have h': "(if out \<noteq> [] then h @ take (length out) buf' else h) = h @ out"
    using tk by (cases "out = []") auto
  have step: "copyLoop f buf w h =
      (case er' of
         Some e \<Rightarrow> Some (Inr (w + int (length out), (if e = EOF then None else Some e), h @ out))
       | None \<Rightarrow> copyLoop \<lparr>src = fh', prevReadEndedCR = prev'\<rparr> buf' (w + int (length out)) (h @ out))"
    using rd le tk by (subst copyLoop.simps) (auto simp: Let_def split: option.split)
  show ?case
  proof (cases er')
    case (Some e)
    have fo: "fileOutput N prev fh = (out, if e = EOF then None else Some e)"
      using "1.prems" fr Some
      by (subst fileOutput.simps) (simp add: out_def er'_def)
    show ?thesis
      using Some by (simp add: step fo)
  next
    case None
    obtain rest e where ro: "fileOutput N prev' fh' = (rest, e)"
      by (cases "fileOutput N prev' fh'")
    have fo: "fileOutput N prev fh = (out @ rest, e)"
      using "1.prems" fr None ro
      by (subst fileOutput.simps) (simp add: out_def er'_def prev'_def)
    have ih: "copyLoop \<lparr>src = fh', prevReadEndedCR = prev'\<rparr> buf' (w + int (length out)) (h @ out) =
       Some (Inr (w + int (length out) + int (length (fst (fileOutput N prev' fh'))),
                  snd (fileOutput N prev' fh'), (h @ out) @ fst (fileOutput N prev' fh')))"
      unfolding prev'_def
      apply (rule "1.IH" [of data "(er, fh')" er fh'])
      using "1.prems" None lb fr by (auto simp: er'_def)
    show ?thesis
      using None ih by (simp add: step fo ro)
  qed
qed

lemma ioCopy_code [code]:
  "ioCopy f h =
     (case fileOutput copyBufferSize (prevReadEndedCR f) (src f) of
        (out, e) \<Rightarrow> Some (Inr (int (length out), e, h @ out)))"
  using copyLoop_fileOutput [of "replicate copyBufferSize NUL" copyBufferSize f
      "prevReadEndedCR f" "src f" 0 h]
  by (simp add: ioCopy_def copyBufferSize_def split: prod.split)

section \<open>The bytes of a regular file\<close>

text \<open>
  The bytes of a file as the line-ending reader hands them to \<^verbatim>\<open>io.Copy\<close>, and the
  error of the copy.
\<close>

lemma hashFile_feeds:
  "hashFile fh h =
     Some (Inr (h @ fst (fileOutput copyBufferSize False fh) @
                  FormatInt (int (length (fst (fileOutput copyBufferSize False fh)))) @ [NUL],
                if snd (fileOutput copyBufferSize False fh) = None
                then Wrap (closeErr fh) ''cannot Close''
                else Wrap (snd (fileOutput copyBufferSize False fh)) ''cannot Copy''))"
  by (cases "fileOutput copyBufferSize False fh"; cases "snd (fileOutput copyBufferSize False fh)")
     (simp_all add: hashFile_def ioCopy_code newLineEndingReader_def writeBytesWithNull_def Let_def)

section \<open>Evaluation on concrete inputs\<close>

lemma digestLoop_numeral [simp]:
  "digestLoop (numeral k) env prefixLength (p # pathnameQueue) h =
     (case digestNode env prefixLength p h of
        None \<Rightarrow> None
      | Some (Inl e) \<Rightarrow> Some (Inl e)
      | Some (Inr (h', children)) \<Rightarrow>
          digestLoop (pred_numeral k) env prefixLength (pathnameQueue @ children) h')"
  by (simp add: numeral_eq_Suc)

lemma verifyLoop_numeral [simp]:
  "verifyLoop (numeral k) env vendorPathname prefixLength wantSums nodes (q # qs) status =
     (case verifyNode (pred_numeral k) env vendorPathname prefixLength wantSums nodes
             (butlast (q # qs)) status (last (q # qs)) of
        None \<Rightarrow> None
      | Some (Inl e) \<Rightarrow> Some (Inl e)
      | Some (Inr (nodes', queue', status')) \<Rightarrow>
          verifyLoop (pred_numeral k) env vendorPathname prefixLength wantSums nodes' queue' status')"
  by (simp add: numeral_eq_Suc)

lemma markRequired_numeral [simp]:
  "markRequired (numeral k) nodes pni =
     (if pni = -1 then Some (Inr nodes)
      else if 0 \<le> pni \<and> pni < int (length nodes) then
        markRequired (pred_numeral k)
          (nodes[nat pni := (nodes ! nat pni)\<lparr>isRequiredAncestor := True\<rparr>])
          (parentIndex (nodes ! nat pni))
      else Some (Inl (Panicked IndexOutOfRange)))"
  by (simp add: numeral_eq_Suc)

lemma follow_numeral [simp]:
  "follow (numeral k) d path =
     (case diskLookup d path of
        None \<Rightarrow> Inl noEntry
      | Some (Symlink referent) \<Rightarrow>
          follow (pred_numeral k) d
            (if take 1 referent = ''/'' then referent else unixJoin (dirOf path) referent)
      | Some e \<Rightarrow> Inr e)"
  by (simp add: numeral_eq_Suc)

lemmas eval_reader = ioCopy_code fileOutput.simps fileRead_def readData_def stripCRLF.simps
  copyBufferSize_def newLineEndingReader_def Let_def hashFile_def writeBytesWithNull_def
  FormatInt_def digits.simps

lemmas eval_modes = ModeDir_def ModeSymlink_def ModeDevice_def ModeNamedPipe_def ModeSocket_def
  ModeCharDevice_def skipModes_def

lemmas eval_unix = unixEnv_def unixClean_def unixJoin_def diskLstat_def diskStat_def diskOpen_def
  diskReadlink_def diskLookup_def dirOf_def noEntry_def

lemmas eval_digest = digestBytes_def DigestFromPathname_def digestNode_def listChildren_def
  sortedListOfDirectoryChildrenFromFileHandle_def skipNames_def

lemmas eval_verify = VerifyDepTree_def verifyWalk_def verifyNode_def lockStatus_def
  initialStatus_def sortedListOfDirectoryChildrenFromPathname_def

text \<open>
  Claim C1, at a stream on which the reader fails. The file holds
  \<open>a CR CR LF CR LF\<close> and is delivered in one fragment. Replacing each CR LF by LF
  gives \<open>a CR LF LF\<close>. In the loop of lines 185-195 the first search finds the
  pair at index 2 and removes its CR, the second search starts at 2 and finds
  the pair at relative index 1, and \<^verbatim>\<open>prevIndex = index\<close> makes the third search
  start at 1, where the lone CR now stands before the first LF: the lone CR is
  removed too. The reader delivers \<open>a LF LF\<close>, three bytes.
\<close>

theorem lineEndingReader_drops_lone_CR:
  "crlfToLf [CHR ''a'', CR, CR, LF, CR, LF] = [CHR ''a'', CR, LF, LF] \<and>
   Read fileRead
     (newLineEndingReader \<lparr>dirnames = Inl noEntry, reads = [Chunk [CHR ''a'', CR, CR, LF, CR, LF]],
                            readErr = None, closeErr = None\<rparr>)
     [NUL, NUL, NUL, NUL, NUL, NUL, NUL, NUL] =
     Inr (3, None, [CHR ''a'', LF, LF, LF, LF, LF, NUL, NUL],
          \<lparr>src = \<lparr>dirnames = Inl noEntry, reads = [], readErr = None, closeErr = None\<rparr>,
            prevReadEndedCR = False\<rparr>) \<and>
   ioCopy
     (newLineEndingReader \<lparr>dirnames = Inl noEntry, reads = [Chunk [CHR ''a'', CR, CR, LF, CR, LF]],
                            readErr = None, closeErr = None\<rparr>) [] =
     Some (Inr (3, None, [CHR ''a'', LF, LF]))"
  by (simp add: eval_reader Read_def insertCR_def removeCRLF.simps slice_def go_copy_def)

text \<open>
  Claim C2, at the same file: the hash is fed \<open>a LF LF\<close>, the length 3 and the
  null byte, where the contents with each CR LF replaced by LF are \<open>a CR LF LF\<close>,
  of length 4.
\<close>

theorem hashFile_lone_CR:
  "hashFile \<lparr>dirnames = Inl noEntry, reads = [Chunk [CHR ''a'', CR, CR, LF, CR, LF]],
             readErr = None, closeErr = None\<rparr> [] =
     Some (Inr ([CHR ''a'', LF, LF, CHR ''3'', NUL], None)) \<and>
   crlfToLf [CHR ''a'', CR, CR, LF, CR, LF] @
     FormatInt (int (length (crlfToLf [CHR ''a'', CR, CR, LF, CR, LF]))) @ [NUL] =
     [CHR ''a'', CR, LF, LF, CHR ''4'', NUL]"
  by (simp add: eval_reader)

section \<open>Failures and the digest\<close>

text \<open>
  At any turn of the loop of \<^verbatim>\<open>DigestFromPathname\<close> (any queue behind the pathname
  \<open>p\<close> and any bytes hashed so far), a failure of \<^verbatim>\<open>Lstat\<close>, \<^verbatim>\<open>Readlink\<close>, \<^verbatim>\<open>Open\<close>,
  of the directory listing, of \<^verbatim>\<open>io.Copy\<close> or of \<^verbatim>\<open>Close\<close> ends the whole loop with
  an error that names the operation. When the listing or the copy fails, the
  error is that one whatever \<^verbatim>\<open>Close\<close> returns; when they succeed and \<^verbatim>\<open>Close\<close>
  fails, the error is that of \<^verbatim>\<open>Close\<close>. The result of \<^verbatim>\<open>DigestFromPathname\<close> is
  the error of the loop, or the digest of all the bytes the loop hashed. The
  last two parts are the same rule for the close in
  \<^verbatim>\<open>sortedListOfDirectoryChildrenFromPathname\<close>.
\<close>

lemma digest_failures_abort:
  "(Lstat env p = Inl e \<longrightarrow>
      digestLoop (Suc fuel) env pl (p # q) h = Some (Inl (Failed (Wrapped e ''cannot Lstat'')))) \<and>
   (Lstat env p = Inr mode \<and> mode AND skipModes = 0 \<and> pl \<le> length p \<longrightarrow>
      (mode AND ModeSymlink \<noteq> 0 \<and> Readlink env p = Inl e \<longrightarrow>
         digestLoop (Suc fuel) env pl (p # q) h = Some (Inl (Failed (Wrapped e ''cannot Readlink'')))) \<and>
      (mode AND ModeSymlink = 0 \<and> Open env p = Inl e \<longrightarrow>
         digestLoop (Suc fuel) env pl (p # q) h = Some (Inl (Failed (Wrapped e ''cannot Open'')))) \<and>
      (mode AND ModeSymlink = 0 \<and> Open env p = Inr fh \<and> mode AND ModeDir \<noteq> 0 \<and>
       dirnames fh = Inl e \<longrightarrow>
         digestLoop (Suc fuel) env pl (p # q) h =
           Some (Inl (Failed (Wrapped (Wrapped e ''cannot Readdirnames'')
                                ''cannot get list of directory children'')))) \<and>
      (mode AND ModeSymlink = 0 \<and> Open env p = Inr fh \<and> mode AND ModeDir \<noteq> 0 \<and>
       dirnames fh = Inr names \<and> closeErr fh = Some e \<longrightarrow>
         digestLoop (Suc fuel) env pl (p # q) h = Some (Inl (Failed (Wrapped e ''cannot Close'')))) \<and>
      (mode AND ModeSymlink = 0 \<and> Open env p = Inr fh \<and> mode AND ModeDir = 0 \<and>
       snd (fileOutput copyBufferSize False fh) = Some e \<longrightarrow>
         digestLoop (Suc fuel) env pl (p # q) h = Some (Inl (Failed (Wrapped e ''cannot Copy'')))) \<and>
      (mode AND ModeSymlink = 0 \<and> Open env p = Inr fh \<and> mode AND ModeDir = 0 \<and>
       snd (fileOutput copyBufferSize False fh) = None \<and> closeErr fh = Some e \<longrightarrow>
         digestLoop (Suc fuel) env pl (p # q) h = Some (Inl (Failed (Wrapped e ''cannot Close''))))) \<and>
   (digestBytes fuel env prefix path = Some (Inl f) \<longrightarrow>
      DigestFromPathname fuel env prefix path = Some (Inl f)) \<and>
   (DigestFromPathname fuel env prefix path = Some (Inr d) \<longrightarrow>
      (\<exists>bytes. digestBytes fuel env prefix path = Some (Inr bytes) \<and> d = Sum256 env bytes)) \<and>
   (Open env p = Inr fh \<and> dirnames fh = Inl e \<longrightarrow>
      sortedListOfDirectoryChildrenFromPathname env p = Inl (Wrapped e ''cannot Readdirnames'')) \<and>
   (Open env p = Inr fh \<and> dirnames fh = Inr names \<and> closeErr fh = Some e \<longrightarrow>
      sortedListOfDirectoryChildrenFromPathname env p = Inl (Wrapped e ''cannot Close''))"
  by (auto simp: digestNode_def listChildren_def sortedListOfDirectoryChildrenFromFileHandle_def
      sortedListOfDirectoryChildrenFromPathname_def hashFile_feeds
      DigestFromPathname_def Let_def
      split: option.splits sum.splits)

text \<open>
  Claim C9, at a file on which it fails. The file holds \<open>a CR\<close>. The first read
  delivers both bytes and the reader withholds the CR. The second read of the
  file fails with an input/output error: the reader is in the branch of lines
  202-208, hands out the CR and sets \<^verbatim>\<open>er = nil\<close>, whatever the error was. The
  third read finds the end of the file. \<^verbatim>\<open>io.Copy\<close> never sees the error, and
  \<^verbatim>\<open>DigestFromPathname\<close> returns a digest (here the digest function is the
  identity, so the digest is the sequence of the bytes hashed).
\<close>

theorem withheld_CR_hides_read_error:
  "fileRead \<lparr>dirnames = Inl (OSError ''not a directory''), reads = [ReadError ioError],
             readErr = None, closeErr = None\<rparr> 3 =
     ([], Some ioError,
      \<lparr>dirnames = Inl (OSError ''not a directory''), reads = [], readErr = None, closeErr = None\<rparr>) \<and>
   Read fileRead
     \<lparr>src = \<lparr>dirnames = Inl (OSError ''not a directory''), reads = [ReadError ioError],
              readErr = None, closeErr = None\<rparr>,
      prevReadEndedCR = True\<rparr> [CHR ''a'', CR, NUL, NUL] =
     Inr (1, None, [CR, CR, NUL, NUL],
          \<lparr>src = \<lparr>dirnames = Inl (OSError ''not a directory''), reads = [],
                   readErr = None, closeErr = None\<rparr>,
            prevReadEndedCR = False\<rparr>) \<and>
   ioCopy (newLineEndingReader flakyFile) [] = Some (Inr (2, None, [CHR ''a'', CR])) \<and>
   DigestFromPathname 1 flakyEnv ''/t'' ''p'' =
     Some (Inr (''p'' @ [NUL] @ [CHR ''a'', CR] @ ''2'' @ [NUL]))"
  by (simp add: flakyEnv_def flakyFile_def ioError_def eval_reader eval_modes eval_unix eval_digest
        Read_def insertCR_def removeCRLF.simps slice_def go_copy_def)

section \<open>Null bytes between the fields\<close>

lemma treeAB_bytes:
  "digestBytes 5 (unixEnv treeAB H) ''/t'' ''p'' = Some (Inr (''p'' @ [NUL] @ ''p/ab'' @ [NUL] @ ''c1'' @ [NUL]))"
  by (simp add: treeAB_def eval_reader eval_modes eval_unix eval_digest)

lemma treeA_bytes:
  "digestBytes 5 (unixEnv treeA H) ''/t'' ''p'' = Some (Inr (''p'' @ [NUL] @ ''p/a'' @ [NUL] @ ''bc2'' @ [NUL]))"
  by (simp add: treeA_def eval_reader eval_modes eval_unix eval_digest)

text \<open>
  Claim C7. The tree with the file \<open>ab\<close> holding \<open>c\<close> and the tree with the file
  \<open>a\<close> holding \<open>bc\<close>, both at \<open>p\<close> under \<open>/t\<close>: the bytes written to the hash are
  the relative path of the directory, of the file, the contents and the length,
  with a null byte after each path and after the length. The two sequences
  differ, and so do the two digests for every digest function \<open>H\<close> that tells the
  two sequences apart.
\<close>

theorem null_bytes_separate_fields:
  "digestBytes 5 (unixEnv treeAB H) ''/t'' ''p'' =
     Some (Inr (''p'' @ [NUL] @ ''p/ab'' @ [NUL] @ ''c'' @ ''1'' @ [NUL])) \<and>
   digestBytes 5 (unixEnv treeA H) ''/t'' ''p'' =
     Some (Inr (''p'' @ [NUL] @ ''p/a'' @ [NUL] @ ''bc'' @ ''2'' @ [NUL])) \<and>
   ''p'' @ [NUL] @ ''p/ab'' @ [NUL] @ ''c'' @ ''1'' @ [NUL] \<noteq>
     ''p'' @ [NUL] @ ''p/a'' @ [NUL] @ ''bc'' @ ''2'' @ [NUL] \<and>
   (H (''p'' @ [NUL] @ ''p/ab'' @ [NUL] @ ''c'' @ ''1'' @ [NUL]) \<noteq>
      H (''p'' @ [NUL] @ ''p/a'' @ [NUL] @ ''bc'' @ ''2'' @ [NUL]) \<longrightarrow>
    DigestFromPathname 5 (unixEnv treeAB H) ''/t'' ''p'' \<noteq>
      DigestFromPathname 5 (unixEnv treeA H) ''/t'' ''p'')"
  using treeAB_bytes [of H] treeA_bytes [of H]
  by (simp add: DigestFromPathname_def unixEnv_def)

theorem null_bytes_separate_fields_witness:
  "(\<lambda>s. s) (''p'' @ [NUL] @ ''p/ab'' @ [NUL] @ ''c'' @ ''1'' @ [NUL]) \<noteq>
      (\<lambda>s. s) (''p'' @ [NUL] @ ''p/a'' @ [NUL] @ ''bc'' @ ''2'' @ [NUL]) \<and>
   DigestFromPathname 5 (unixEnv treeAB (\<lambda>s. s)) ''/t'' ''p'' \<noteq>
      DigestFromPathname 5 (unixEnv treeA (\<lambda>s. s)) ''/t'' ''p''"
  using null_bytes_separate_fields [of "\<lambda>s. s"] by simp

section \<open>The prefix and the digest\<close>

text \<open>
  Claim C6, at two prefixes on which it fails. The directories \<open>/p\<close> and \<open>/t/p\<close>
  hold the same file \<open>f\<close>. With the prefix \<open>/\<close>, line 59 makes the prefix \<open>//\<close> of
  length 2, and \<^verbatim>\<open>pathname[prefixLength:]\<close> cuts two bytes off \<open>/p\<close> and \<open>/p/f\<close>: the
  paths hashed are the empty path and \<open>/f\<close>, where under \<open>/t\<close> they are \<open>p\<close> and
  \<open>p/f\<close>. The digest function here is the identity, so the digest is the
  sequence of the bytes hashed. With the prefix \<open>.\<close> the prefix is \<open>./\<close>, the
  pathname joined is \<open>p\<close>, shorter than the prefix, and the slice panics.
\<close>

theorem root_prefix_changes_digest:
  "DigestFromPathname 5 (unixEnv twoCopies (\<lambda>s. s)) ''/'' ''p'' =
     Some (Inr ([NUL] @ ''/f'' @ [NUL] @ ''x1'' @ [NUL])) \<and>
   DigestFromPathname 5 (unixEnv twoCopies (\<lambda>s. s)) ''/t'' ''p'' =
     Some (Inr (''p'' @ [NUL] @ ''p/f'' @ [NUL] @ ''x1'' @ [NUL])) \<and>
   DigestFromPathname 5 (unixEnv [(''p'', Directory [])] (\<lambda>s. s)) ''.'' ''p'' =
     Some (Inl (Panicked SliceBoundsOutOfRange))"
  by (simp add: twoCopies_def eval_reader eval_modes eval_unix eval_digest)

section \<open>A regular file at a key of the table\<close>

text \<open>
  Claim C3, at a table on which it fails. The vendor root holds the regular file
  \<open>foo\<close> and the table has the key \<open>foo\<close>. The file gets a node but is never put
  on the queue, so it is never looked up in the table and never marked required;
  the last pass finds it not required under the required root and gives the key
  the status \<open>NotInLock\<close>.
\<close>

theorem file_at_table_key_is_NotInLock:
  "\<exists>status. VerifyDepTree 5 (unixEnv fileAtKey (\<lambda>s. s)) ''/v'' [''foo'' \<mapsto> ''x''] = Some (Inr status) \<and>
      status ''foo'' = Some NotInLock"
  by (simp add: fileAtKey_def eval_reader eval_modes eval_unix eval_digest eval_verify)

section \<open>The marks of the nodes\<close>

text \<open>
  The loop of lines 391-395 changes marks only, marks the node it starts from,
  and leaves the marks closed under parents.
\<close>

lemma sameTree_refl: "sameTree nodes nodes"
  by (simp add: sameTree_def)

lemma sameTree_trans: "sameTree a b \<Longrightarrow> sameTree b c \<Longrightarrow> sameTree a c"
  by (auto simp: sameTree_def)

lemma sameTree_mark:
  "i < length nodes \<Longrightarrow> sameTree nodes (nodes[i := (nodes ! i)\<lparr>isRequiredAncestor := True\<rparr>])"
  by (auto simp: sameTree_def required_def nth_list_update)

lemma sameTree_wellIndexed: "sameTree nodes nodes' \<Longrightarrow> wellIndexed nodes \<Longrightarrow> wellIndexed nodes'"
  by (auto simp: sameTree_def wellIndexed_def)

lemma markRequired_sameTree:
  "markRequired fuel nodes pni = Some (Inr nodes') \<Longrightarrow> sameTree nodes nodes'"
proof (induction fuel arbitrary: nodes pni)
  case 0
  then show ?case by (simp add: sameTree_refl split: if_splits)
next
  case (Suc fuel)
  show ?case
  proof (cases "pni = -1")
    case True
    with Suc.prems show ?thesis by (simp add: sameTree_refl)
  next
    case False
    with Suc.prems have r: "0 \<le> pni" "pni < int (length nodes)"
      and m: "markRequired fuel (nodes[nat pni := (nodes ! nat pni)\<lparr>isRequiredAncestor := True\<rparr>])
                (parentIndex (nodes ! nat pni)) = Some (Inr nodes')"
      by (auto split: if_splits)
    have "sameTree nodes (nodes[nat pni := (nodes ! nat pni)\<lparr>isRequiredAncestor := True\<rparr>])"
      using r by (intro sameTree_mark) auto
    with Suc.IH [OF m] show ?thesis by (rule sameTree_trans [rotated])
  qed
qed

lemma markRequired_marks:
  "markRequired fuel nodes pni = Some (Inr nodes') \<Longrightarrow> 0 \<le> pni \<Longrightarrow>
     pni < int (length nodes) \<and> required nodes' (nat pni)"
proof (cases fuel)
  case 0
  then show "markRequired fuel nodes pni = Some (Inr nodes') \<Longrightarrow> 0 \<le> pni \<Longrightarrow> ?thesis"
    by (auto split: if_splits)
next
  case (Suc n)
  assume a: "markRequired fuel nodes pni = Some (Inr nodes')" "0 \<le> pni"
  with Suc have r: "pni < int (length nodes)"
      and m: "markRequired n (nodes[nat pni := (nodes ! nat pni)\<lparr>isRequiredAncestor := True\<rparr>])
                (parentIndex (nodes ! nat pni)) = Some (Inr nodes')"
    by (auto split: if_splits)
  have "required (nodes[nat pni := (nodes ! nat pni)\<lparr>isRequiredAncestor := True\<rparr>]) (nat pni)"
    using r a(2) by (simp add: required_def)
  with markRequired_sameTree [OF m] r a(2) show ?thesis
    by (auto simp: sameTree_def)
qed

lemma markRequired_closed:
  "markRequired fuel nodes pni = Some (Inr nodes') \<Longrightarrow> wellIndexed nodes \<Longrightarrow>
     closedExcept nodes pni \<Longrightarrow> closedExcept nodes' (-1)"
proof (induction fuel arbitrary: nodes pni)
  case 0
  then show ?case by (simp split: if_splits)
next
  case (Suc fuel)
  show ?case
  proof (cases "pni = -1")
    case True
    with Suc.prems show ?thesis by simp
  next
    case False
    define nodes1 where "nodes1 = nodes[nat pni := (nodes ! nat pni)\<lparr>isRequiredAncestor := True\<rparr>]"
    from False Suc.prems have r: "0 \<le> pni" "pni < int (length nodes)"
      and m: "markRequired fuel nodes1 (parentIndex (nodes ! nat pni)) = Some (Inr nodes')"
      by (auto simp: nodes1_def split: if_splits)
    have st: "sameTree nodes nodes1"
      unfolding nodes1_def using r by (intro sameTree_mark) auto
    have wi: "wellIndexed nodes1" using st Suc.prems(2) by (rule sameTree_wellIndexed)
    have "closedExcept nodes1 (parentIndex (nodes ! nat pni))"
      unfolding closedExcept_def
    proof (intro allI impI)
      fix i assume i: "i < length nodes1" and "0 < i \<and> required nodes1 i"
      then have pos: "0 < i" and rq: "required nodes1 i" by auto
      have il: "i < length nodes" using i by (simp add: nodes1_def)
      have par: "parentIndex (nodes1 ! i) = parentIndex (nodes ! i)"
        using st il by (simp add: sameTree_def)
      have pr: "0 \<le> parentIndex (nodes ! i)" "parentIndex (nodes ! i) < int i"
        using Suc.prems(2) il pos by (auto simp: wellIndexed_def)
      show "required nodes1 (parentOf nodes1 i) \<or>
            parentIndex (nodes1 ! i) = parentIndex (nodes ! nat pni)"
      proof (cases "i = nat pni")
        case True
        then show ?thesis using par by simp
      next
        case ne: False
        then have "required nodes i"
          using rq il by (simp add: required_def nodes1_def)
        with Suc.prems(3) il pos
        have "required nodes (parentOf nodes i) \<or> parentIndex (nodes ! i) = pni"
          by (auto simp: closedExcept_def)
        then have "required nodes1 (parentOf nodes1 i)"
        proof
          assume "required nodes (parentOf nodes i)"
          moreover have "parentOf nodes i < length nodes"
            using pr il by (simp add: parentOf_def)
          ultimately show ?thesis
            using st par by (simp add: sameTree_def parentOf_def)
        next
          assume "parentIndex (nodes ! i) = pni"
          then show ?thesis
            using r par by (simp add: parentOf_def required_def nodes1_def)
        qed
        then show ?thesis ..
      qed
    qed
    from Suc.IH [OF m wi this] show ?thesis .
  qed
qed

section \<open>The invariant of the walk\<close>

text \<open>
  The loop over the children (lines 404-428) appends nodes that line 419 does not
  skip, with the current node as their parent, and queues the directories among
  them.
\<close>

lemma addChildren_appends:
  "addChildren env cp ci names nodes queue = Inr (nodes', queue') \<Longrightarrow>
     \<exists>new newq. nodes' = nodes @ new \<and> queue' = queue @ newq \<and>
       (\<forall>j < length new. parentIndex (new ! j) = ci \<and> myIndex (new ! j) = int (length nodes + j) \<and>
          \<not> isRequiredAncestor (new ! j) \<and> notSkipped env (new ! j) \<and>
          ((\<exists>m. Stat env (pathname (new ! j)) = Inr m \<and> m AND ModeDir \<noteq> 0) \<longrightarrow>
             length nodes + j \<in> set newq)) \<and>
       (\<forall>q \<in> set newq. q < length nodes + length new)"
proof (induction names arbitrary: nodes queue)
  case Nil
  then show ?case by simp
next
  case (Cons c rest)
  show ?case
  proof (cases "c \<in> set skipNames")
    case True
    with Cons.prems have "addChildren env cp ci rest nodes queue = Inr (nodes', queue')" by simp
    from Cons.IH [OF this] show ?thesis .
  next
    case False
    define child where "child = Join env cp c"
    from False Cons.prems obtain mode where st: "Stat env child = Inr mode"
      by (auto simp: child_def Let_def split: sum.splits)
    show ?thesis
    proof (cases "mode AND skipModes \<noteq> 0 \<or> mode AND ModeSymlink \<noteq> 0")
      case True
      with False Cons.prems st
      have "addChildren env cp ci rest nodes queue = Inr (nodes', queue')"
        by (auto simp: child_def [symmetric] Let_def)
      from Cons.IH [OF this] show ?thesis .
    next
      case ns: False
      define node where "node = \<lparr>pathname = child, isRequiredAncestor = False,
                                  myIndex = int (length nodes), parentIndex = ci\<rparr>"
      define q1 where "q1 = (if mode AND ModeDir \<noteq> 0 then queue @ [length nodes] else queue)"
      from False ns Cons.prems st
      have "addChildren env cp ci rest (nodes @ [node]) q1 = Inr (nodes', queue')"
        by (auto simp: child_def [symmetric] Let_def node_def q1_def)
      from Cons.IH [OF this]
      obtain new newq where n: "nodes' = (nodes @ [node]) @ new" and q: "queue' = q1 @ newq"
        and each: "\<forall>j < length new. parentIndex (new ! j) = ci \<and>
            myIndex (new ! j) = int (length (nodes @ [node]) + j) \<and>
            \<not> isRequiredAncestor (new ! j) \<and> notSkipped env (new ! j) \<and>
            ((\<exists>m. Stat env (pathname (new ! j)) = Inr m \<and> m AND ModeDir \<noteq> 0) \<longrightarrow>
               length (nodes @ [node]) + j \<in> set newq)"
        and qs: "\<forall>q \<in> set newq. q < length (nodes @ [node]) + length new"
        by blast
      define newq' where "newq' = (if mode AND ModeDir \<noteq> 0 then [length nodes] else []) @ newq"
      have a: "nodes' = nodes @ (node # new)" using n by simp
      have b: "queue' = queue @ newq'" using q by (simp add: q1_def newq'_def)
      have c: "parentIndex ((node # new) ! j) = ci \<and>
            myIndex ((node # new) ! j) = int (length nodes + j) \<and>
            \<not> isRequiredAncestor ((node # new) ! j) \<and> notSkipped env ((node # new) ! j) \<and>
            ((\<exists>m. Stat env (pathname ((node # new) ! j)) = Inr m \<and> m AND ModeDir \<noteq> 0) \<longrightarrow>
               length nodes + j \<in> set newq')" if "j < length (node # new)" for j
      proof (cases j)
        case 0
        then show ?thesis
          using st ns by (auto simp: node_def notSkipped_def newq'_def)
      next
        case (Suc j')
        with that have "j' < length new" by simp
        with each Suc show ?thesis by (auto simp: newq'_def)
      qed
      have d: "\<forall>q \<in> set newq'. q < length nodes + length (node # new)"
        using qs by (auto simp: newq'_def)
      from a b c d show ?thesis by blast
    qed
  qed
qed

lemma lockStatus_result:
  "lockStatus fuel env vp k d = Some (Inr ls) \<Longrightarrow> ls \<noteq> NotInLock \<and> (d = [] \<longrightarrow> ls = EmptyDigestInLock)"
  by (auto simp: lockStatus_def split: if_splits option.splits sum.splits failure.splits)

lemma closedExcept_weaken:
  "wellIndexed nodes \<Longrightarrow> closedExcept nodes (-1) \<Longrightarrow> closedExcept nodes pni"
  unfolding closedExcept_def wellIndexed_def by fastforce

text \<open>One turn of the loop keeps the invariant, in the branch of line 375 and in the other.\<close>

lemma verifyNode_matched:
  assumes inv: "walkInv env pl want nodes (q # qs) status"
    and cur: "cur = last (q # qs)"
    and w: "want (relPath pl (nodes ! cur)) = Some d"
    and ls: "ls \<noteq> NotInLock" "d = [] \<longrightarrow> ls = EmptyDigestInLock"
    and m: "markRequired fuel nodes (myIndex (nodes ! cur)) = Some (Inr nodes')"
  shows "walkInv env pl want nodes' (butlast (q # qs)) (status(relPath pl (nodes ! cur) \<mapsto> ls))"
proof -
  have curq: "cur \<in> set (q # qs)" unfolding cur by (rule last_in_set) simp
  from inv have wi: "wellIndexed nodes" and r0: "required nodes 0" and cl: "closedExcept nodes (-1)"
    and ns: "\<forall>i < length nodes. 0 < i \<longrightarrow> notSkipped env (nodes ! i)"
    and qb: "\<forall>q' \<in> set (q # qs). q' < length nodes"
    and dirs: "\<forall>i < length nodes. isDirNode env nodes i \<longrightarrow>
         i \<in> set (q # qs) \<or> settled want pl nodes status i"
    and par: "\<forall>i < length nodes. 0 < i \<longrightarrow> want (relPath pl (nodes ! parentOf nodes i)) = None"
    and nil: "\<forall>k. status k \<noteq> Some NotInLock"
    and chg: "\<forall>k. status k \<noteq> initialStatus want k \<longrightarrow>
         (\<exists>i < length nodes. relPath pl (nodes ! i) = k \<and> required nodes i)"
    by (auto simp: walkInv_def)
  have curl: "cur < length nodes" using qb curq by blast
  have mi: "myIndex (nodes ! cur) = int cur" using wi curl by (simp add: wellIndexed_def)
  have st: "sameTree nodes nodes'" using m by (rule markRequired_sameTree)
  have len: "length nodes' = length nodes" using st by (simp add: sameTree_def)
  have same: "pathname (nodes' ! i) = pathname (nodes ! i)"
      "parentIndex (nodes' ! i) = parentIndex (nodes ! i)"
      "required nodes i \<Longrightarrow> required nodes' i" if "i < length nodes" for i
    using st that by (auto simp: sameTree_def)
  have rp: "relPath pl (nodes' ! i) = relPath pl (nodes ! i)" if "i < length nodes" for i
    using same(1) [OF that] by (simp add: relPath_def)
  have po: "parentOf nodes' i = parentOf nodes i" if "i < length nodes" for i
    using same(2) [OF that] by (simp add: parentOf_def)
  have rc: "required nodes' cur"
    using markRequired_marks [OF m] mi by simp
  have cl': "closedExcept nodes' (-1)"
    using m wi closedExcept_weaken [OF wi cl] by (rule markRequired_closed)
  have pol: "parentOf nodes i < length nodes" if "i < length nodes" "0 < i" for i
    using wi that by (auto simp: wellIndexed_def parentOf_def)
  define status' where "status' = status(relPath pl (nodes ! cur) \<mapsto> ls)"
  have f1: "wellIndexed nodes'" using st wi by (rule sameTree_wellIndexed)
  have f2: "required nodes' 0"
    using r0 same(3) [of 0] wi by (auto simp: wellIndexed_def)
  have f4: "\<forall>i < length nodes'. 0 < i \<longrightarrow> notSkipped env (nodes' ! i)"
    using ns same(1) len by (auto simp: notSkipped_def)
  have f5: "\<forall>q' \<in> set (butlast (q # qs)). q' < length nodes'"
    using qb len by (auto dest: in_set_butlastD)
  have f6: "\<forall>i < length nodes'. isDirNode env nodes' i \<longrightarrow>
         i \<in> set (butlast (q # qs)) \<or> settled want pl nodes' status' i"
  proof (intro allI impI)
    fix i assume i: "i < length nodes'" and d: "isDirNode env nodes' i"
    then have il: "i < length nodes" using len by simp
    have "isDirNode env nodes i" using d same(1) [OF il] by (simp add: isDirNode_def)
    with dirs il have "i \<in> set (q # qs) \<or> settled want pl nodes status i" by blast
    then show "i \<in> set (butlast (q # qs)) \<or> settled want pl nodes' status' i"
    proof
      assume iq: "i \<in> set (q # qs)"
      show ?thesis
      proof (cases "i = cur")
        case True
        then have "settled want pl nodes' status' i"
          using w rc ls rp [OF curl] by (simp add: settled_def status'_def)
        then show ?thesis ..
      next
        case False
        have "q # qs = butlast (q # qs) @ [cur]"
          unfolding cur by (rule append_butlast_last_id [symmetric]) simp
        then have "set (q # qs) = set (butlast (q # qs) @ [cur])" by simp
        with iq False show ?thesis by auto
      qed
    next
      assume s: "settled want pl nodes status i"
      have "settled want pl nodes' status' i"
      proof (cases "want (relPath pl (nodes ! i))")
        case None
        then show ?thesis using rp [OF il] by (simp add: settled_def)
      next
        case (Some d')
        with s have rq: "required nodes i"
          and e: "d' = [] \<longrightarrow> status (relPath pl (nodes ! i)) = Some EmptyDigestInLock"
          by (auto simp: settled_def)
        have "d' = [] \<longrightarrow> status' (relPath pl (nodes ! i)) = Some EmptyDigestInLock"
          using e Some w ls by (auto simp: status'_def)
        with Some same(3) [OF il rq] rp [OF il] show ?thesis by (simp add: settled_def)
      qed
      then show ?thesis ..
    qed
  qed
  have f7: "\<forall>i < length nodes'. 0 < i \<longrightarrow> want (relPath pl (nodes' ! parentOf nodes' i)) = None"
  proof (intro allI impI)
    fix i assume i: "i < length nodes'" "0 < i"
    then have il: "i < length nodes" using len by simp
    show "want (relPath pl (nodes' ! parentOf nodes' i)) = None"
      using par il i(2) po [OF il] rp [OF pol [OF il i(2)]] by simp
  qed
  have f8: "\<forall>k. status' k \<noteq> Some NotInLock"
    using nil ls by (simp add: status'_def)
  have f9: "\<forall>k. status' k \<noteq> initialStatus want k \<longrightarrow>
         (\<exists>i < length nodes'. relPath pl (nodes' ! i) = k \<and> required nodes' i)"
  proof (intro allI impI)
    fix k assume k: "status' k \<noteq> initialStatus want k"
    show "\<exists>i < length nodes'. relPath pl (nodes' ! i) = k \<and> required nodes' i"
    proof (cases "k = relPath pl (nodes ! cur)")
      case True
      then show ?thesis using curl len rc rp [OF curl] by auto
    next
      case False
      with k have "status k \<noteq> initialStatus want k" by (simp add: status'_def)
      with chg obtain i where "i < length nodes" "relPath pl (nodes ! i) = k" "required nodes i"
        by blast
      then show ?thesis using len rp same(3) by auto
    qed
  qed
  show ?thesis
    unfolding walkInv_def status'_def [symmetric]
    by (intro conjI f1 f2 cl' f4 f5 f6 f7 f8 f9)
qed

lemma verifyNode_unmatched:
  assumes inv: "walkInv env pl want nodes (q # qs) status"
    and cur: "cur = last (q # qs)"
    and w: "want (relPath pl (nodes ! cur)) = None"
    and a: "addChildren env cp (myIndex (nodes ! cur)) names nodes (butlast (q # qs)) = Inr (nodes', queue')"
  shows "walkInv env pl want nodes' queue' status"
proof -
  have curq: "cur \<in> set (q # qs)" unfolding cur by (rule last_in_set) simp
  from inv have wi: "wellIndexed nodes" and r0: "required nodes 0" and cl: "closedExcept nodes (-1)"
    and ns: "\<forall>i < length nodes. 0 < i \<longrightarrow> notSkipped env (nodes ! i)"
    and qb: "\<forall>q' \<in> set (q # qs). q' < length nodes"
    and dirs: "\<forall>i < length nodes. isDirNode env nodes i \<longrightarrow>
         i \<in> set (q # qs) \<or> settled want pl nodes status i"
    and par: "\<forall>i < length nodes. 0 < i \<longrightarrow> want (relPath pl (nodes ! parentOf nodes i)) = None"
    and nil: "\<forall>k. status k \<noteq> Some NotInLock"
    and chg: "\<forall>k. status k \<noteq> initialStatus want k \<longrightarrow>
         (\<exists>i < length nodes. relPath pl (nodes ! i) = k \<and> required nodes i)"
    by (auto simp: walkInv_def)
  have curl: "cur < length nodes" using qb curq by blast
  have mi: "myIndex (nodes ! cur) = int cur" using wi curl by (simp add: wellIndexed_def)
  from addChildren_appends [OF a] obtain new newq where
    n': "nodes' = nodes @ new" and q': "queue' = butlast (q # qs) @ newq"
    and each: "\<forall>j < length new. parentIndex (new ! j) = int cur \<and>
          myIndex (new ! j) = int (length nodes + j) \<and>
          \<not> isRequiredAncestor (new ! j) \<and> notSkipped env (new ! j) \<and>
          ((\<exists>m. Stat env (pathname (new ! j)) = Inr m \<and> m AND ModeDir \<noteq> 0) \<longrightarrow>
             length nodes + j \<in> set newq)"
    and nq: "\<forall>q' \<in> set newq. q' < length nodes + length new"
    unfolding mi by blast
  have old: "nodes' ! i = nodes ! i" if "i < length nodes" for i
    using that by (simp add: n' nth_append)
  have nw: "nodes' ! i = new ! (i - length nodes)" "i - length nodes < length new"
    if "\<not> i < length nodes" "i < length nodes'" for i
    using that by (auto simp: n' nth_append)
  have nne: "nodes \<noteq> []" using wi by (simp add: wellIndexed_def)
  have pol: "parentOf nodes i < length nodes" if "i < length nodes" "0 < i" for i
    using wi that by (auto simp: wellIndexed_def parentOf_def)
  have reqold: "required nodes' i = required nodes i" if "i < length nodes" for i
    using old [OF that] by (simp add: required_def)
  have reqnew: "\<not> required nodes' i" if "\<not> i < length nodes" "i < length nodes'" for i
    using nw [OF that] each by (simp add: required_def)
  have poold: "parentOf nodes' i = parentOf nodes i" if "i < length nodes" for i
    using old [OF that] by (simp add: parentOf_def)
  have ponew: "parentOf nodes' i = cur" if "\<not> i < length nodes" "i < length nodes'" for i
    using nw [OF that] each by (simp add: parentOf_def)
  have f1: "wellIndexed nodes'"
    unfolding wellIndexed_def
  proof (intro conjI allI impI)
    show "nodes' \<noteq> []" using nne by (simp add: n')
    show "parentIndex (nodes' ! 0) = -1"
      using wi nne old [of 0] by (simp add: wellIndexed_def)
  next
    fix i assume i: "i < length nodes'"
    show "myIndex (nodes' ! i) = int i"
    proof (cases "i < length nodes")
      case True
      then show ?thesis using wi old by (simp add: wellIndexed_def)
    next
      case False
      with nw [OF False i] each show ?thesis by auto
    qed
  next
    fix i assume i: "i < length nodes'" and pos: "0 < i"
    show "0 \<le> parentIndex (nodes' ! i)"
    proof (cases "i < length nodes")
      case True
      then show ?thesis using wi old pos by (simp add: wellIndexed_def)
    next
      case False
      with nw [OF False i] each show ?thesis by auto
    qed
    show "parentIndex (nodes' ! i) < int i"
    proof (cases "i < length nodes")
      case True
      then show ?thesis using wi old pos by (simp add: wellIndexed_def)
    next
      case False
      with nw [OF False i] each curl show ?thesis by auto
    qed
  qed
  have f2: "required nodes' 0" using r0 nne reqold [of 0] by simp
  have f3: "closedExcept nodes' (-1)"
    unfolding closedExcept_def
  proof (intro allI impI)
    fix i assume i: "i < length nodes'" and "0 < i \<and> required nodes' i"
    then have pos: "0 < i" and rq: "required nodes' i" by auto
    have il: "i < length nodes" using reqnew i rq by blast
    with rq have "required nodes i" by (simp add: reqold)
    with cl il pos have "required nodes (parentOf nodes i) \<or> parentIndex (nodes ! i) = -1"
      by (auto simp: closedExcept_def)
    then show "required nodes' (parentOf nodes' i) \<or> parentIndex (nodes' ! i) = -1"
      using il pos poold [OF il] reqold [OF pol [OF il pos]] old [OF il] by auto
  qed
  have f4: "\<forall>i < length nodes'. 0 < i \<longrightarrow> notSkipped env (nodes' ! i)"
  proof (intro allI impI)
    fix i assume i: "i < length nodes'" "0 < i"
    show "notSkipped env (nodes' ! i)"
    proof (cases "i < length nodes")
      case True
      then show ?thesis using ns old i by simp
    next
      case False
      with nw [OF False i(1)] each show ?thesis by auto
    qed
  qed
  have f5: "\<forall>q' \<in> set queue'. q' < length nodes'"
  proof
    fix x assume "x \<in> set queue'"
    then have "x \<in> set (butlast (q # qs)) \<or> x \<in> set newq" by (simp add: q')
    then show "x < length nodes'"
    proof
      assume "x \<in> set (butlast (q # qs))"
      then have "x \<in> set (q # qs)" by (rule in_set_butlastD)
      with qb show ?thesis by (auto simp: n')
    next
      assume "x \<in> set newq"
      with nq show ?thesis by (simp add: n')
    qed
  qed
  have split: "set (q # qs) = set (butlast (q # qs) @ [cur])"
  proof -
    have "q # qs = butlast (q # qs) @ [cur]"
      unfolding cur by (rule append_butlast_last_id [symmetric]) simp
    then show ?thesis by simp
  qed
  have f6: "\<forall>i < length nodes'. isDirNode env nodes' i \<longrightarrow>
              i \<in> set queue' \<or> settled want pl nodes' status i"
  proof (intro allI impI)
    fix i assume i: "i < length nodes'" and d: "isDirNode env nodes' i"
    show "i \<in> set queue' \<or> settled want pl nodes' status i"
    proof (cases "i < length nodes")
      case True
      have "isDirNode env nodes i" using d old [OF True] by (simp add: isDirNode_def)
      with dirs True have "i \<in> set (q # qs) \<or> settled want pl nodes status i" by blast
      then show ?thesis
      proof
        assume iq: "i \<in> set (q # qs)"
        show ?thesis
        proof (cases "i = cur")
          case True
          then have "settled want pl nodes' status i"
            using w old [OF curl] by (simp add: settled_def)
          then show ?thesis ..
        next
          case False
          with iq split show ?thesis by (auto simp: q')
        qed
      next
        assume "settled want pl nodes status i"
        then have "settled want pl nodes' status i"
          using old [OF True] reqold [OF True] by (auto simp: settled_def split: option.splits)
        then show ?thesis ..
      qed
    next
      case False
      have "0 < length nodes" using nne by simp
      with False have "i \<noteq> 0" by linarith
      with d obtain m where "Stat env (pathname (nodes' ! i)) = Inr m" "m AND ModeDir \<noteq> 0"
        by (auto simp: isDirNode_def)
      with nw [OF False i] each have "length nodes + (i - length nodes) \<in> set newq" by auto
      with False show ?thesis by (simp add: q')
    qed
  qed
  have f7: "\<forall>i < length nodes'. 0 < i \<longrightarrow> want (relPath pl (nodes' ! parentOf nodes' i)) = None"
  proof (intro allI impI)
    fix i assume i: "i < length nodes'" "0 < i"
    show "want (relPath pl (nodes' ! parentOf nodes' i)) = None"
    proof (cases "i < length nodes")
      case True
      then show ?thesis
        using par i(2) poold [OF True] old [OF pol [OF True i(2)]] by simp
    next
      case False
      then show ?thesis using ponew [OF False i(1)] old [OF curl] w by simp
    qed
  qed
  have f9: "\<forall>k. status k \<noteq> initialStatus want k \<longrightarrow>
         (\<exists>i < length nodes'. relPath pl (nodes' ! i) = k \<and> required nodes' i)"
  proof (intro allI impI)
    fix k assume "status k \<noteq> initialStatus want k"
    with chg obtain i where i: "i < length nodes" "relPath pl (nodes ! i) = k" "required nodes i"
      by blast
    then have "i < length nodes'" by (simp add: n')
    with i old [OF i(1)] reqold [OF i(1)] show "\<exists>i < length nodes'. relPath pl (nodes' ! i) = k \<and> required nodes' i"
      by auto
  qed
  show ?thesis
    unfolding walkInv_def
    by (intro conjI f1 f2 f3 f4 f5 f6 f7 nil f9)
qed

lemma verifyNode_cases:
  assumes "verifyNode fuel env vp pl want nodes rest status cur = Some (Inr (nodes', queue', status'))"
  shows "(want (relPath pl (nodes ! cur)) = None \<and>
          (\<exists>names. addChildren env (pathname (nodes ! cur)) (myIndex (nodes ! cur)) names nodes rest =
              Inr (nodes', queue')) \<and> status' = status) \<or>
         (\<exists>d ls. want (relPath pl (nodes ! cur)) = Some d \<and>
            lockStatus fuel env vp (relPath pl (nodes ! cur)) d = Some (Inr ls) \<and>
            markRequired fuel nodes (myIndex (nodes ! cur)) = Some (Inr nodes') \<and>
            queue' = rest \<and> status' = status(relPath pl (nodes ! cur) \<mapsto> ls))"
  using assms
  by (auto simp: verifyNode_def Let_def relPath_def split: if_splits sum.splits option.splits)

lemma verifyNode_inv:
  assumes inv: "walkInv env pl want nodes (q # qs) status"
    and step: "verifyNode fuel env vp pl want nodes (butlast (q # qs)) status (last (q # qs)) =
                 Some (Inr (nodes', queue', status'))"
  shows "walkInv env pl want nodes' queue' status'"
proof -
  define cur where "cur = last (q # qs)"
  from verifyNode_cases [OF step]
  show ?thesis
  proof (elim disjE conjE exE)
    fix names
    assume w: "want (relPath pl (nodes ! last (q # qs))) = None"
      and a: "addChildren env (pathname (nodes ! last (q # qs))) (myIndex (nodes ! last (q # qs)))
                names nodes (butlast (q # qs)) = Inr (nodes', queue')"
      and s: "status' = status"
    from verifyNode_unmatched [OF inv refl w a] s show ?thesis by simp
  next
    fix d ls
    assume w: "want (relPath pl (nodes ! last (q # qs))) = Some d"
      and l: "lockStatus fuel env vp (relPath pl (nodes ! last (q # qs))) d = Some (Inr ls)"
      and m: "markRequired fuel nodes (myIndex (nodes ! last (q # qs))) = Some (Inr nodes')"
      and r: "queue' = butlast (q # qs)" "status' = status(relPath pl (nodes ! last (q # qs)) \<mapsto> ls)"
    from lockStatus_result [OF l] have "ls \<noteq> NotInLock" "d = [] \<longrightarrow> ls = EmptyDigestInLock"
      by auto
    from verifyNode_matched [OF inv refl w this m] r show ?thesis by simp
  qed
qed

lemma verifyLoop_inv:
  "walkInv env pl want nodes queue status \<Longrightarrow>
   verifyLoop fuel env vp pl want nodes queue status = Some (Inr (nodes', status')) \<Longrightarrow>
   walkInv env pl want nodes' [] status'"
proof (induction fuel arbitrary: nodes queue status)
  case 0
  then show ?case by (cases queue) auto
next
  case (Suc fuel)
  show ?case
  proof (cases queue)
    case Nil
    with Suc.prems show ?thesis by simp
  next
    case (Cons q qs)
    with Suc.prems(2) obtain nodes1 queue1 status1 where
      v: "verifyNode fuel env vp pl want nodes (butlast (q # qs)) status (last (q # qs)) =
            Some (Inr (nodes1, queue1, status1))"
      and l: "verifyLoop fuel env vp pl want nodes1 queue1 status1 = Some (Inr (nodes', status'))"
      by (auto split: option.splits sum.splits)
    from verifyNode_inv [OF Suc.prems(1) [unfolded Cons] v]
    have "walkInv env pl want nodes1 queue1 status1" .
    from Suc.IH [OF this l] show ?thesis .
  qed
qed

lemma walkInv_initial:
  "walkInv env pl want
     [\<lparr>pathname = vp, isRequiredAncestor = True, myIndex = 0, parentIndex = -1\<rparr>] [0]
     (initialStatus want)"
  by (auto simp: walkInv_def wellIndexed_def required_def closedExcept_def isDirNode_def
      initialStatus_def split: option.splits)

lemma verifyWalk_inv:
  "verifyWalk fuel env root want = Some (Inr (nodes, status, pl)) \<Longrightarrow>
     walkInv env pl want nodes [] status"
  by (auto simp: verifyWalk_def Let_def split: sum.splits if_splits option.splits
      intro: verifyLoop_inv [OF walkInv_initial])

section \<open>The last pass\<close>

text \<open>
  The pass of lines 438-443 gives \<open>NotInLock\<close> to the keys of the nodes that are not
  marked under a marked parent, and leaves every other entry as the walk left it.
\<close>

lemma reportNotInLock_char:
  "wellIndexed nodes \<Longrightarrow> i < length nodes \<Longrightarrow> reportNotInLock i nodes pl st = Inr status \<Longrightarrow>
     status = (\<lambda>k. if \<exists>j. 0 < j \<and> j \<le> i \<and> reported nodes j \<and> relPath pl (nodes ! j) = k
                   then Some NotInLock else st k)"
proof (induction i arbitrary: st)
  case 0
  then show ?case by auto
next
  case (Suc i)
  have rng: "0 \<le> parentIndex (nodes ! Suc i)" "parentIndex (nodes ! Suc i) < int (length nodes)"
    using Suc.prems(1,2) by (auto simp: wellIndexed_def)
  have il: "i < length nodes" using Suc.prems(2) by simp
  show ?case
  proof (cases "reported nodes (Suc i)")
    case True
    with Suc.prems(3) rng
    have r: "reportNotInLock i nodes pl (st(relPath pl (nodes ! Suc i) \<mapsto> NotInLock)) = Inr status"
      by (auto simp: reported_def required_def parentOf_def relPath_def Let_def split: if_splits)
    have "status k = (if \<exists>j. 0 < j \<and> j \<le> Suc i \<and> reported nodes j \<and> relPath pl (nodes ! j) = k
                   then Some NotInLock else st k)" for k
      using Suc.IH [OF Suc.prems(1) il r] True
      by (auto simp: le_Suc_eq)
    then show ?thesis by blast
  next
    case False
    with Suc.prems(3) rng
    have r: "reportNotInLock i nodes pl st = Inr status"
      by (auto simp: reported_def required_def parentOf_def relPath_def Let_def split: if_splits)
    have "status k = (if \<exists>j. 0 < j \<and> j \<le> Suc i \<and> reported nodes j \<and> relPath pl (nodes ! j) = k
                   then Some NotInLock else st k)" for k
      using Suc.IH [OF Suc.prems(1) il r] False
      by (auto simp: le_Suc_eq)
    then show ?thesis by blast
  qed
qed

lemma VerifyDepTree_char:
  assumes walk: "verifyWalk fuel env root want = Some (Inr (nodes, st, pl))"
    and final: "VerifyDepTree fuel env root want = Some (Inr status)"
  shows "status k = (if \<exists>j. 0 < j \<and> j < length nodes \<and> reported nodes j \<and> relPath pl (nodes ! j) = k
                     then Some NotInLock else st k)"
proof -
  have wi: "wellIndexed nodes" using verifyWalk_inv [OF walk] by (simp add: walkInv_def)
  then have ne: "nodes \<noteq> []" by (simp add: wellIndexed_def)
  from walk final have r: "reportNotInLock (length nodes - 1) nodes pl st = Inr status"
    by (simp add: VerifyDepTree_def)
  have "length nodes - 1 < length nodes" using ne by (cases nodes) auto
  from reportNotInLock_char [OF wi this r] ne show ?thesis
    by (cases nodes) (auto simp: less_Suc_eq_le)
qed





section \<open>Children that the walk skips\<close>

text \<open>
  Claim C4, amended. A child for which \<^verbatim>\<open>os.Stat\<close> reports a device, a named pipe,
  a socket or a character device gets no node. The queue holds nodes only, so
  such a child is never listed. When its relative path is the key of no node,
  its entry in the map returned is the one that lines 364-367 gave it: the
  status \<open>NotInTree\<close> when the path is a key of the table, and none otherwise.
  Symbolic links are left out of this statement: line 412 asks \<^verbatim>\<open>os.Stat\<close>, which
  follows them, so that the test of \<^verbatim>\<open>os.ModeSymlink\<close> at line 419 does not see
  them.
\<close>

theorem special_children_are_skipped:
  assumes walk: "verifyWalk fuel env root want = Some (Inr (nodes, st, pl))"
    and final: "VerifyDepTree fuel env root want = Some (Inr status)"
    and child: "Stat env p = Inr m" and special: "m AND skipModes \<noteq> 0"
  shows "(\<forall>i. 0 < i \<and> i < length nodes \<longrightarrow> pathname (nodes ! i) \<noteq> p) \<and>
         ((\<forall>i < length nodes. relPath pl (nodes ! i) \<noteq> drop pl p) \<longrightarrow>
            status (drop pl p) = initialStatus want (drop pl p))"
proof -
  from verifyWalk_inv [OF walk]
  have ns: "\<forall>i < length nodes. 0 < i \<longrightarrow> notSkipped env (nodes ! i)"
    and chg: "\<forall>k. st k \<noteq> initialStatus want k \<longrightarrow>
         (\<exists>i < length nodes. relPath pl (nodes ! i) = k \<and> required nodes i)"
    by (auto simp: walkInv_def)
  note char = VerifyDepTree_char [OF walk final]
  have a: "pathname (nodes ! i) \<noteq> p" if "0 < i" "i < length nodes" for i
    using ns that child special by (auto simp: notSkipped_def)
  have b: "status (drop pl p) = initialStatus want (drop pl p)"
    if "\<forall>i < length nodes. relPath pl (nodes ! i) \<noteq> drop pl p"
    using char [of "drop pl p"] chg that by auto
  from a b show ?thesis by blast
qed

text \<open>
  The statement at a vendor root that holds the device \<open>dev\<close> and the empty
  directory \<open>p\<close>, with \<open>dev\<close> a key of the table.
\<close>

theorem special_children_are_skipped_witness:
  "verifyWalk 5 (unixEnv deviceChild (\<lambda>s. s)) ''/v'' [''dev'' \<mapsto> ''x''] =
     Some (Inr ([node ''/v/'' True 0 (-1), node ''/v/p'' False 1 0],
                initialStatus [''dev'' \<mapsto> ''x''], 3)) \<and>
   VerifyDepTree 5 (unixEnv deviceChild (\<lambda>s. s)) ''/v'' [''dev'' \<mapsto> ''x''] =
     Some (Inr ((initialStatus [''dev'' \<mapsto> ''x''])(''p'' \<mapsto> NotInLock))) \<and>
   Stat (unixEnv deviceChild (\<lambda>s. s)) ''/v/dev'' = Inr ModeDevice \<and>
   ModeDevice AND skipModes \<noteq> 0 \<and>
   ''/v/dev'' \<notin> set (map pathname [node ''/v/'' True 0 (-1), node ''/v/p'' False 1 0]) \<and>
   ((initialStatus [''dev'' \<mapsto> ''x''])(''p'' \<mapsto> NotInLock)) ''dev'' = Some NotInTree"
proof -
  have w: "verifyWalk 5 (unixEnv deviceChild (\<lambda>s. s)) ''/v'' [''dev'' \<mapsto> ''x''] =
     Some (Inr ([node ''/v/'' True 0 (-1), node ''/v/p'' False 1 0],
                initialStatus [''dev'' \<mapsto> ''x''], 3))"
    by (simp add: node_def deviceChild_def eval_reader eval_modes eval_unix eval_digest eval_verify)
  have f: "VerifyDepTree 5 (unixEnv deviceChild (\<lambda>s. s)) ''/v'' [''dev'' \<mapsto> ''x''] =
     Some (Inr ((initialStatus [''dev'' \<mapsto> ''x''])(''p'' \<mapsto> NotInLock)))"
    by (simp add: node_def deviceChild_def eval_reader eval_modes eval_unix eval_digest eval_verify)
  have s: "Stat (unixEnv deviceChild (\<lambda>s. s)) ''/v/dev'' = Inr ModeDevice"
    by (simp add: deviceChild_def eval_modes eval_unix)
  have m: "ModeDevice AND skipModes \<noteq> 0"
    by (simp add: eval_modes)
  from special_children_are_skipped [OF w f s m]
  have "((initialStatus [''dev'' \<mapsto> ''x''])(''p'' \<mapsto> NotInLock)) (drop 3 ''/v/dev'') =
          initialStatus [''dev'' \<mapsto> ''x''] (drop 3 ''/v/dev'')"
    by (simp add: relPath_def node_def)
  then have "((initialStatus [''dev'' \<mapsto> ''x''])(''p'' \<mapsto> NotInLock)) ''dev'' = Some NotInTree"
    by (simp add: initialStatus_def)
  with w f s m show ?thesis by (simp add: node_def)
qed

text \<open>
  Claim C4 as stated fails at two inputs. The device \<open>dev\<close> at a key of the table
  is skipped and has the status \<open>NotInTree\<close> in the map returned. The symbolic
  link \<open>lnk\<close> to a directory gets a node, is listed, and has the status
  \<open>NotInLock\<close>.
\<close>

theorem skipped_child_has_status:
  "Lstat (unixEnv deviceChild (\<lambda>s. s)) ''/v/dev'' = Inr ModeDevice \<and>
   statusOf (VerifyDepTree 5 (unixEnv deviceChild (\<lambda>s. s)) ''/v'' [''dev'' \<mapsto> ''x'']) ''dev'' =
     Some (Inr (Some NotInTree)) \<and>
   Lstat (unixEnv linkChild (\<lambda>s. s)) ''/v/lnk'' = Inr ModeSymlink \<and>
   verifyWalk 5 (unixEnv linkChild (\<lambda>s. s)) ''/v'' Map.empty =
     Some (Inr ([node ''/v/'' True 0 (-1), node ''/v/lnk'' False 1 0], initialStatus Map.empty, 3)) \<and>
   statusOf (VerifyDepTree 5 (unixEnv linkChild (\<lambda>s. s)) ''/v'' Map.empty) ''lnk'' =
     Some (Inr (Some NotInLock))"
  by (simp add: statusOf_def node_def deviceChild_def linkChild_def eval_reader eval_modes eval_unix
      eval_digest eval_verify)

section \<open>The nodes reported as not in the lock\<close>




section \<open>An empty digest in the table\<close>



end
